theory Spec2Isabelle
  imports Complex_Main "HOL-Library.Multiset"
begin

section \<open>Numbers of type double\<close>

text \<open>
  The library computes with C++ \<^verbatim>\<open>double\<close>. A double is modelled as a real number or
  one of the three special values of IEEE 754. The special values follow the IEEE rules
  (an infinity absorbs finite summands, \<open>\<infinity> - \<infinity>\<close> is not a number, every comparison with a
  NaN is false). The sign of zero is not modelled.

  There are two sets of finite operations. \<open>fadd\<close>, \<open>fsub\<close> and \<open>fdiv\<close> round their result
  to binary64 (to the nearest double, ties to the even significand, an infinity on
  overflow); \<^verbatim>\<open>ComputeCost\<close> is modelled with them. \<open>dadd\<close> and \<open>dsub\<close> are exact on finite
  values; the loops of \<^verbatim>\<open>Optimize\<close> are modelled with them.
\<close>

datatype double = Fin real | PInf | NInf | NaN

fun dneg :: "double \<Rightarrow> double" where
  "dneg (Fin a) = Fin (- a)"
| "dneg PInf = NInf"
| "dneg NInf = PInf"
| "dneg NaN = NaN"

fun dadd :: "double \<Rightarrow> double \<Rightarrow> double" where
  "dadd (Fin a) (Fin b) = Fin (a + b)"
| "dadd NaN _ = NaN"
| "dadd _ NaN = NaN"
| "dadd PInf NInf = NaN"
| "dadd NInf PInf = NaN"
| "dadd PInf _ = PInf"
| "dadd NInf _ = NInf"
| "dadd _ PInf = PInf"
| "dadd _ NInf = NInf"

definition dsub :: "double \<Rightarrow> double \<Rightarrow> double" where
  "dsub a b = dadd a (dneg b)"

text \<open>Division; a finite zero divisor is read as \<open>+0\<close>.\<close>

fun ddiv :: "double \<Rightarrow> double \<Rightarrow> double" where
  "ddiv (Fin a) (Fin b) =
     (if b \<noteq> 0 then Fin (a / b)
      else if 0 < a then PInf else if a < 0 then NInf else NaN)"
| "ddiv NaN _ = NaN"
| "ddiv _ NaN = NaN"
| "ddiv (Fin a) PInf = Fin 0"
| "ddiv (Fin a) NInf = Fin 0"
| "ddiv PInf (Fin b) = (if 0 \<le> b then PInf else NInf)"
| "ddiv NInf (Fin b) = (if 0 \<le> b then NInf else PInf)"
| "ddiv PInf _ = NaN"
| "ddiv NInf _ = NaN"

fun dless :: "double \<Rightarrow> double \<Rightarrow> bool" where
  "dless (Fin a) (Fin b) = (a < b)"
| "dless NaN _ = False"
| "dless _ NaN = False"
| "dless _ NInf = False"
| "dless PInf _ = False"
| "dless NInf _ = True"
| "dless _ PInf = True"

fun dle :: "double \<Rightarrow> double \<Rightarrow> bool" where
  "dle (Fin a) (Fin b) = (a \<le> b)"
| "dle NaN _ = False"
| "dle _ NaN = False"
| "dle NInf _ = True"
| "dle _ PInf = True"
| "dle PInf _ = False"
| "dle _ NInf = False"

fun dabs :: "double \<Rightarrow> double" where
  "dabs (Fin a) = Fin \<bar>a\<bar>"
| "dabs PInf = PInf"
| "dabs NInf = PInf"
| "dabs NaN = NaN"

text \<open>\<^verbatim>\<open>std::max(a, b)\<close> is \<^verbatim>\<open>(a < b) ? b : a\<close> and \<^verbatim>\<open>std::min(a, b)\<close> is
  \<^verbatim>\<open>(b < a) ? b : a\<close>.\<close>

definition std_max :: "double \<Rightarrow> double \<Rightarrow> double" where
  "std_max a b = (if dless a b then b else a)"

definition std_min :: "double \<Rightarrow> double \<Rightarrow> double" where
  "std_min a b = (if dless b a then b else a)"

text \<open>\<^verbatim>\<open>std::numeric_limits<double>::max()\<close> and \<^verbatim>\<open>::min()\<close> (the smallest positive
  normal number).\<close>

definition DBL_MAX :: real where
  "DBL_MAX = (2 ^ 53 - 1) * 2 ^ 971"

definition DBL_MIN :: real where
  "DBL_MIN = 1 / 2 ^ 1022"

text \<open>Rounding to binary64. The exponent of \<open>x\<close> is that of its binade, at least the
  smallest normal exponent; the doubles near \<open>x\<close> are the integer multiples of
  \<open>2\<^sup>e\<^sup>-\<^sup>5\<^sup>2\<close>, and \<open>x\<close> is rounded to the nearest of them, to the even multiple when two
  are equally near. A result of magnitude \<open>2\<^sup>1\<^sup>0\<^sup>2\<^sup>4\<close> or more is an infinity.\<close>

definition exponent :: "real \<Rightarrow> int" where
  "exponent x = max \<lfloor>log 2 \<bar>x\<bar>\<rfloor> (- 1022)"

definition quantum :: "real \<Rightarrow> real" where
  "quantum x = 2 powi (exponent x - 52)"

definition rne :: "real \<Rightarrow> int" where
  "rne y =
     (if y - of_int \<lfloor>y\<rfloor> < 1 / 2 then \<lfloor>y\<rfloor>
      else if 1 / 2 < y - of_int \<lfloor>y\<rfloor> then \<lfloor>y\<rfloor> + 1
      else if even \<lfloor>y\<rfloor> then \<lfloor>y\<rfloor> else \<lfloor>y\<rfloor> + 1)"

definition round_double :: "real \<Rightarrow> double" where
  "round_double x =
     (if x = 0 then Fin 0
      else if 2 ^ 1024 \<le> \<bar>of_int (rne (x / quantum x)) * quantum x\<bar>
        then (if 0 < x then PInf else NInf)
      else Fin (of_int (rne (x / quantum x)) * quantum x))"

fun fadd :: "double \<Rightarrow> double \<Rightarrow> double" where
  "fadd (Fin a) (Fin b) = round_double (a + b)"
| "fadd a b = dadd a b"

definition fsub :: "double \<Rightarrow> double \<Rightarrow> double" where
  "fsub a b = fadd a (dneg b)"

fun fdiv :: "double \<Rightarrow> double \<Rightarrow> double" where
  "fdiv (Fin a) (Fin b) = (if b \<noteq> 0 then round_double (a / b) else ddiv (Fin a) (Fin b))"
| "fdiv a b = ddiv a b"

section \<open>ComputeCost\<close>

definition ComputeCost :: "double \<Rightarrow> double \<Rightarrow> double \<Rightarrow> double \<Rightarrow> double" where
  "ComputeCost travel_time work_time retry_risk priority =
     (if dle (Fin 1) retry_risk \<or> dle priority (Fin 0) then PInf
      else fdiv (fdiv (fadd travel_time work_time) (fsub (Fin 1) retry_risk)) priority)"

section \<open>Assignments\<close>

record Assignment =
  character :: int
  task :: int
  cost :: double

datatype error = OutOfBounds | Uninitialized

text \<open>\<^verbatim>\<open>std::swap(a, assignments.back()); assignments.pop_back();\<close> where \<^verbatim>\<open>a\<close> is
  \<^verbatim>\<open>assignments[i]\<close>.\<close>

definition swap_pop :: "'a list \<Rightarrow> nat \<Rightarrow> 'a list" where
  "swap_pop xs i = butlast (xs[i := last xs, length xs - 1 := xs ! i])"

section \<open>LimitAssignments\<close>

text \<open>
  \<^verbatim>\<open>std::sort\<close> with the comparator \<^verbatim>\<open>a.cost < b.cost\<close>. The standard leaves the order
  of elements of equal cost open; the model inserts each element before the first one
  that is not cheaper.
\<close>

fun insort_cost :: "Assignment \<Rightarrow> Assignment list \<Rightarrow> Assignment list" where
  "insort_cost a [] = [a]"
| "insort_cost a (b # bs) =
     (if dless (cost b) (cost a) then b # insort_cost a bs else a # b # bs)"

definition sort_cost :: "Assignment list \<Rightarrow> Assignment list" where
  "sort_cost xs = foldr insort_cost xs []"

text \<open>
  The loop over the sorted vector. The two counter arrays have one cell for every
  identifier from 0 to the largest one present, so an index is out of bounds exactly when
  it is negative.
\<close>

function limit_loop ::
  "int \<Rightarrow> int \<Rightarrow> Assignment list \<Rightarrow> nat \<Rightarrow> (int \<Rightarrow> int) \<Rightarrow> (int \<Rightarrow> int) \<Rightarrow> error + Assignment list"
where
  "limit_loop limit_per_character limit_per_task assignments i
      tasks_per_character characters_per_task =
     (if i < length assignments then
        let a = assignments ! i in
        if character a < 0 then Inl OutOfBounds
        else if tasks_per_character (character a) \<ge> limit_per_character then
          limit_loop limit_per_character limit_per_task (swap_pop assignments i) i
            tasks_per_character characters_per_task
        else if task a < 0 then Inl OutOfBounds
        else if characters_per_task (task a) \<ge> limit_per_task then
          limit_loop limit_per_character limit_per_task (swap_pop assignments i) i
            tasks_per_character characters_per_task
        else
          limit_loop limit_per_character limit_per_task assignments (i + 1)
            (tasks_per_character(character a := tasks_per_character (character a) + 1))
            (characters_per_task(task a := characters_per_task (task a) + 1))
      else Inr assignments)"
  by pat_completeness auto
termination
  by (relation "measure (\<lambda>(lc, lt, as, i, tpc, cpt). length as - i)")
     (auto simp: swap_pop_def)

declare limit_loop.simps [simp del]

definition LimitAssignments ::
  "Assignment list \<Rightarrow> int \<Rightarrow> int \<Rightarrow> error + Assignment list" where
  "LimitAssignments assignments limit_per_character limit_per_task =
     limit_loop limit_per_character limit_per_task (sort_cost assignments) 0
       (\<lambda>_. 0) (\<lambda>_. 0)"

text \<open>How often an identifier occurs in a list of assignments.\<close>

definition count_character :: "int \<Rightarrow> Assignment list \<Rightarrow> nat" where
  "count_character c xs = length (filter (\<lambda>a. character a = c) xs)"

definition count_task :: "int \<Rightarrow> Assignment list \<Rightarrow> nat" where
  "count_task t xs = length (filter (\<lambda>a. task a = t) xs)"

section \<open>Optimize\<close>

text \<open>A counting loop \<^verbatim>\<open>for (i = i0; i < n; i++) body\<close> without \<^verbatim>\<open>break\<close>.\<close>

function for_loop :: "int \<Rightarrow> int \<Rightarrow> (int \<Rightarrow> 's \<Rightarrow> 's) \<Rightarrow> 's \<Rightarrow> 's" where
  "for_loop i n body s = (if i < n then for_loop (i + 1) n body (body i s) else s)"
  by pat_completeness auto
termination
  by (relation "measure (\<lambda>(i, n, body, s). nat (n - i))") auto

declare for_loop.simps [simp del]

definition in_range :: "int \<Rightarrow> int \<Rightarrow> bool" where
  "in_range n i = (0 \<le> i \<and> i < n)"

text \<open>The local arrays and queue positions of \<^verbatim>\<open>Optimize\<close>. An array is a function of
  its index; the places where an index is computed from data carry a bounds check.\<close>

record kstate =
  lx :: "int \<Rightarrow> double"
  ly :: "int \<Rightarrow> double"
  xy :: "int \<Rightarrow> int"
  yx :: "int \<Rightarrow> int"
  S :: "int \<Rightarrow> bool"
  T :: "int \<Rightarrow> bool"
  slack :: "int \<Rightarrow> double"
  slackx :: "int \<Rightarrow> int"
  prev :: "int \<Rightarrow> int"
  q :: "int \<Rightarrow> int"
  wr :: int
  rd :: int

definition eq :: "double \<Rightarrow> double \<Rightarrow> bool" where
  "eq a b = dless (dabs (dsub a b)) (Fin (1 / 10000))"

definition update_labels :: "int \<Rightarrow> int \<Rightarrow> kstate \<Rightarrow> kstate" where
  "update_labels NX NY st =
     (let delta = for_loop 0 NY
            (\<lambda>y delta. if \<not> T st y then std_min delta (slack st y) else delta) (Fin DBL_MAX);
          st1 = for_loop 0 NX
            (\<lambda>x s. if S s x then s\<lparr>lx := (lx s)(x := dsub (lx s x) delta)\<rparr> else s) st;
          st2 = for_loop 0 NY
            (\<lambda>y s. if T s y then s\<lparr>ly := (ly s)(y := dadd (ly s y) delta)\<rparr> else s) st1
      in for_loop 0 NY
            (\<lambda>y s. if \<not> T s y then s\<lparr>slack := (slack s)(y := dsub (slack s y) delta)\<rparr> else s)
            st2)"

definition add_to_tree ::
  "int \<Rightarrow> (int \<Rightarrow> int \<Rightarrow> double) \<Rightarrow> int \<Rightarrow> int \<Rightarrow> kstate \<Rightarrow> kstate" where
  "add_to_tree NY val x prevx st =
     for_loop 0 NY
       (\<lambda>y s. if dless (dsub (dadd (lx s x) (ly s y)) (val x y)) (slack s y)
              then s\<lparr>slack := (slack s)(y := dsub (dadd (lx s x) (ly s y)) (val x y)),
                     slackx := (slackx s)(y := x)\<rparr>
              else s)
       (st\<lparr>S := (S st)(x := True), prev := (prev st)(x := prevx)\<rparr>)"

text \<open>The inner \<^verbatim>\<open>for\<close> of the breadth-first search, from \<open>y\<close> on. The result holds the
  value of \<open>y\<close> at which the loop stops: below \<open>NY\<close> after a \<^verbatim>\<open>break\<close>.\<close>

function bfs_scan ::
  "int \<Rightarrow> int \<Rightarrow> (int \<Rightarrow> int \<Rightarrow> double) \<Rightarrow> int \<Rightarrow> int \<Rightarrow> kstate \<Rightarrow> error + (int \<times> kstate)"
where
  "bfs_scan NX NY val x y st =
     (if y < NY then
        if eq (val x y) (dadd (lx st x) (ly st y)) \<and> \<not> T st y then
          if yx st y = - 1 then Inr (y, st)
          else if \<not> in_range NX (wr st) \<or> \<not> in_range NX (yx st y) then Inl OutOfBounds
          else
            bfs_scan NX NY val x (y + 1)
              (add_to_tree NY val (yx st y) x
                 (st\<lparr>T := (T st)(y := True), q := (q st)(wr st := yx st y), wr := wr st + 1\<rparr>))
        else bfs_scan NX NY val x (y + 1) st
      else Inr (y, st))"
  by pat_completeness auto
termination
  by (relation "measure (\<lambda>(NX, NY, val, x, y, st). nat (NY - y))") auto

declare bfs_scan.simps [simp del]

lemma for_loop_preserves:
  assumes "\<And>i s. P s \<Longrightarrow> P (body i s)" and "P s"
  shows "P (for_loop i n body s)"
  using assms
proof (induction i n body s rule: for_loop.induct)
  case (1 i n body s)
  show ?case
  proof (cases "i < n")
    case True
    have "P (body i s)" using "1.prems"(2) by (rule "1.prems"(1))
    with True "1.IH" "1.prems"(1) have "P (for_loop (i + 1) n body (body i s))" by blast
    with True show ?thesis by (subst for_loop.simps) simp
  next
    case False
    with "1.prems" show ?thesis by (subst for_loop.simps) simp
  qed
qed

lemma add_to_tree_queue:
  "wr (add_to_tree NY val x prevx st) = wr st \<and> rd (add_to_tree NY val x prevx st) = rd st"
  unfolding add_to_tree_def
  by (rule for_loop_preserves [where P = "\<lambda>s. wr s = wr st \<and> rd s = rd st"]) auto

lemma bfs_scan_queue:
  "bfs_scan NX NY val x y st = Inr (y', st') \<Longrightarrow>
     rd st' = rd st \<and> max (wr st') NX = max (wr st) NX"
proof (induction NX NY val x y st rule: bfs_scan.induct)
  case (1 NX NY val x y st)
  show ?case
    using "1.prems" "1.IH"
    by (subst (asm) bfs_scan.simps)
       (auto split: if_splits simp: add_to_tree_queue in_range_def)
qed

text \<open>The \<^verbatim>\<open>while (rd < wr)\<close> loop of the breadth-first search. The result is
  \<open>Some (x, y)\<close> when the loop is left by \<^verbatim>\<open>break\<close>, with an exposed \<open>y < NY\<close>; otherwise
  the queue has drained and \<open>y = NY\<close>, the value every completed \<^verbatim>\<open>for\<close> over \<open>y\<close>
  leaves behind.\<close>

function bfs ::
  "int \<Rightarrow> int \<Rightarrow> (int \<Rightarrow> int \<Rightarrow> double) \<Rightarrow> kstate \<Rightarrow> error + ((int \<times> int) option \<times> kstate)"
where
  "bfs NX NY val st =
     (if rd st < wr st then
        case bfs_scan NX NY val (q st (rd st)) 0 (st\<lparr>rd := rd st + 1\<rparr>) of
          Inl e \<Rightarrow> Inl e
        | Inr (y, st') \<Rightarrow>
            if y < NY then Inr (Some (q st (rd st), y), st') else bfs NX NY val st'
      else Inr (None, st))"
  by pat_completeness auto
termination
proof (relation "measure (\<lambda>(NX, NY, val, st). nat (max (wr st) NX - rd st))")
  show "wf (measure (\<lambda>(NX, NY, val, st). nat (max (wr st) NX - rd st)))"
    by simp
next
  fix NX NY :: int and val :: "int \<Rightarrow> int \<Rightarrow> double" and st :: kstate
    and x2 :: "int \<times> kstate" and y :: int and st' :: kstate
  assume a: "rd st < wr st"
    and b: "bfs_scan NX NY val (q st (rd st)) 0 (st\<lparr>rd := rd st + 1\<rparr>) = Inr x2"
    and c: "(y, st') = x2"
  from b c have "bfs_scan NX NY val (q st (rd st)) 0 (st\<lparr>rd := rd st + 1\<rparr>) = Inr (y, st')"
    by simp
  from bfs_scan_queue [OF this] a
  show "((NX, NY, val, st'), (NX, NY, val, st))
      \<in> measure (\<lambda>(NX, NY, val, st). nat (max (wr st) NX - rd st))"
    by auto
qed

declare bfs.simps [simp del]

text \<open>The \<^verbatim>\<open>for\<close> loop after \<^verbatim>\<open>update_labels\<close>, from \<open>y\<close> on: \<open>Some (x, y)\<close> when it is
  left by \<^verbatim>\<open>break\<close> with \<^verbatim>\<open>x = slackx[y]\<close>.\<close>

function slack_scan ::
  "int \<Rightarrow> int \<Rightarrow> (int \<Rightarrow> int \<Rightarrow> double) \<Rightarrow> int \<Rightarrow> kstate
     \<Rightarrow> error + ((int \<times> int) option \<times> kstate)"
where
  "slack_scan NX NY val y st =
     (if y < NY then
        if \<not> T st y \<and> eq (slack st y) (Fin 0) then
          if yx st y = - 1 then Inr (Some (slackx st y, y), st)
          else if \<not> in_range NX (yx st y) then Inl OutOfBounds
          else if \<not> S st (yx st y) then
            if \<not> in_range NX (wr st) then Inl OutOfBounds
            else
              slack_scan NX NY val (y + 1)
                (add_to_tree NY val (yx st y) (slackx st y)
                   (st\<lparr>T := (T st)(y := True), q := (q st)(wr st := yx st y),
                       wr := wr st + 1\<rparr>))
          else slack_scan NX NY val (y + 1) (st\<lparr>T := (T st)(y := True)\<rparr>)
        else slack_scan NX NY val (y + 1) st
      else Inr (None, st))"
  by pat_completeness auto
termination
  by (relation "measure (\<lambda>(NX, NY, val, y, st). nat (NY - y))") auto

declare slack_scan.simps [simp del]

text \<open>The \<^verbatim>\<open>while (true)\<close> cycle of one phase. It is left only with an augmenting
  path \<open>(x, y)\<close>; \<open>None\<close> stands for a cycle that never ends.\<close>

partial_function (option) main_cycle ::
  "int \<Rightarrow> int \<Rightarrow> (int \<Rightarrow> int \<Rightarrow> double) \<Rightarrow> kstate \<Rightarrow> (error + (int \<times> int \<times> kstate)) option"
where
  "main_cycle NX NY val st =
     (case bfs NX NY val st of
        Inl e \<Rightarrow> Some (Inl e)
      | Inr (Some (x, y), st1) \<Rightarrow> Some (Inr (x, y, st1))
      | Inr (None, st1) \<Rightarrow>
          (case slack_scan NX NY val 0 ((update_labels NX NY st1)\<lparr>wr := 0, rd := 0\<rparr>) of
             Inl e \<Rightarrow> Some (Inl e)
           | Inr (Some (x, y), st2) \<Rightarrow> Some (Inr (x, y, st2))
           | Inr (None, st2) \<Rightarrow> main_cycle NX NY val st2))"

text \<open>Inverting the edges along the augmenting path.\<close>

partial_function (option) augment ::
  "int \<Rightarrow> int \<Rightarrow> int \<Rightarrow> int \<Rightarrow> kstate \<Rightarrow> (error + kstate) option"
where
  "augment NX NY cx cy st =
     (if cx \<noteq> - 2 then
        if \<not> in_range NX cx \<or> \<not> in_range NY cy then Some (Inl OutOfBounds)
        else augment NX NY (prev st cx) (xy st cx)
               (st\<lparr>yx := (yx st)(cy := cx), xy := (xy st)(cx := cy)\<rparr>)
      else Some (Inr st))"

text \<open>The start of one pass of the outer loop: clearing \<^verbatim>\<open>S\<close>, \<^verbatim>\<open>T\<close> and
  \<^verbatim>\<open>prev\<close>, choosing the root \<open>r\<close> and initialising the queue and the slack arrays. The variable
  \<^verbatim>\<open>root\<close> has no initial value; when no free \<open>x\<close> has a label above
  \<^verbatim>\<open>numeric_limits<double>::min()\<close> it is read without ever being written.\<close>

definition find_root :: "int \<Rightarrow> kstate \<Rightarrow> double \<times> int option" where
  "find_root NX st =
     for_loop 0 NX
       (\<lambda>x (best_lx, r).
          if xy st x = - 1 \<and> dless best_lx (lx st x) then (lx st x, Some x)
          else (best_lx, r))
       (Fin DBL_MIN, None)"

definition init_phase ::
  "int \<Rightarrow> int \<Rightarrow> (int \<Rightarrow> int \<Rightarrow> double) \<Rightarrow> kstate \<Rightarrow> error + kstate" where
  "init_phase NX NY val st =
     (case snd (find_root NX st) of
        None \<Rightarrow> Inl Uninitialized
      | Some r \<Rightarrow>
          Inr (for_loop 0 NY
                 (\<lambda>y s. s\<lparr>slack := (slack s)(y := dsub (dadd (lx s r) (ly s y)) (val r y)),
                          slackx := (slackx s)(y := r)\<rparr>)
                 (st\<lparr>S := (\<lambda>_. False)(r := True), T := (\<lambda>_. False),
                     prev := (\<lambda>_. - 1)(r := - 2),
                     q := (q st)(0 := r), wr := 1, rd := 0\<rparr>)))"

text \<open>The outer loop \<^verbatim>\<open>while (max_match < std::min(NX, NY))\<close>. Each pass ends with one
  augmentation and adds one to \<^verbatim>\<open>max_match\<close>; the result holds the final value of
  \<^verbatim>\<open>max_match\<close> and the final arrays.\<close>

partial_function (option) outer_loop ::
  "int \<Rightarrow> int \<Rightarrow> (int \<Rightarrow> int \<Rightarrow> double) \<Rightarrow> int \<Rightarrow> kstate \<Rightarrow> (error + (int \<times> kstate)) option"
where
  "outer_loop NX NY val max_match st =
     (if max_match < min NX NY then
        case init_phase NX NY val st of
          Inl e \<Rightarrow> Some (Inl e)
        | Inr st1 \<Rightarrow>
            (case main_cycle NX NY val st1 of
               None \<Rightarrow> None
             | Some (Inl e) \<Rightarrow> Some (Inl e)
             | Some (Inr (x, y, st2)) \<Rightarrow>
                 (case augment NX NY x y st2 of
                    None \<Rightarrow> None
                  | Some (Inl e) \<Rightarrow> Some (Inl e)
                  | Some (Inr st3) \<Rightarrow> outer_loop NX NY val (max_match + 1) st3))
      else Some (Inr (max_match, st)))"

text \<open>The state before the outer loop: the matching is empty, the labels of \<open>Y\<close> are 0
  and the label of each \<open>x\<close> is the largest value of its row (or 0). The arrays that
  \<^verbatim>\<open>Optimize\<close> leaves uninitialised are written before they are read.\<close>

definition init_state :: "int \<Rightarrow> int \<Rightarrow> (int \<Rightarrow> int \<Rightarrow> double) \<Rightarrow> kstate" where
  "init_state NX NY val =
     \<lparr>lx = for_loop 0 NX
             (\<lambda>x l. for_loop 0 NY (\<lambda>y l. l(x := std_max (l x) (val x y))) l)
             (\<lambda>_. Fin 0),
      ly = (\<lambda>_. Fin 0), xy = (\<lambda>_. - 1), yx = (\<lambda>_. - 1),
      S = (\<lambda>_. False), T = (\<lambda>_. False),
      slack = (\<lambda>_. Fin 0), slackx = (\<lambda>_. 0), prev = (\<lambda>_. - 1),
      q = (\<lambda>_. 0), wr = 0, rd = 0\<rparr>"

definition hungarian ::
  "int \<Rightarrow> int \<Rightarrow> (int \<Rightarrow> int \<Rightarrow> double) \<Rightarrow> (error + (int \<times> kstate)) option" where
  "hungarian NX NY val = outer_loop NX NY val 0 (init_state NX NY val)"

text \<open>The final loops, which remove every assignment that fails the test of the matching.\<close>

function filter_loop :: "(Assignment \<Rightarrow> bool) \<Rightarrow> Assignment list \<Rightarrow> nat \<Rightarrow> Assignment list"
where
  "filter_loop remove assignments i =
     (if i < length assignments then
        if remove (assignments ! i) then filter_loop remove (swap_pop assignments i) i
        else filter_loop remove assignments (i + 1)
      else assignments)"
  by pat_completeness auto
termination
  by (relation "measure (\<lambda>(remove, as, i). length as - i)") (auto simp: swap_pop_def)

declare filter_loop.simps [simp del]

text \<open>
  \<^verbatim>\<open>Optimize\<close>. The result is \<open>None\<close> when the function does not return,
  \<open>Some (Inl e)\<close> when it reads or writes outside an array or reads the uninitialised
  \<^verbatim>\<open>root\<close>, and \<open>Some (Inr out)\<close> when it returns with the vector \<open>out\<close>.
  Writing \<^verbatim>\<open>value[a.character][a.task]\<close> is out of bounds exactly for a negative
  identifier.
\<close>

definition max_character :: "Assignment list \<Rightarrow> int" where
  "max_character assignments = fold (\<lambda>a m. max m (character a)) assignments 0"

definition max_task :: "Assignment list \<Rightarrow> int" where
  "max_task assignments = fold (\<lambda>a m. max m (task a)) assignments 0"

definition max_cost :: "Assignment list \<Rightarrow> double" where
  "max_cost assignments = fold (\<lambda>a m. std_max m (cost a)) assignments (Fin 0)"

text \<open>The matrix \<^verbatim>\<open>value\<close>, with the characters as rows (when there are more tasks than
  characters) or with the tasks as rows.\<close>

definition value_by_character :: "Assignment list \<Rightarrow> int \<Rightarrow> int \<Rightarrow> double" where
  "value_by_character assignments =
     fold (\<lambda>a v. v(character a := (v (character a))
             (task a := dadd (dsub (max_cost assignments) (cost a)) (Fin 1))))
       assignments (\<lambda>x y. Fin 1)"

definition value_by_task :: "Assignment list \<Rightarrow> int \<Rightarrow> int \<Rightarrow> double" where
  "value_by_task assignments =
     fold (\<lambda>a v. v(task a := (v (task a))
             (character a := dadd (dsub (max_cost assignments) (cost a)) (Fin 1))))
       assignments (\<lambda>x y. Fin 1)"

definition Optimize :: "Assignment list \<Rightarrow> (error + Assignment list) option" where
  "Optimize assignments =
     (if \<exists>a \<in> set assignments. character a < 0 \<or> task a < 0 then Some (Inl OutOfBounds)
      else if max_task assignments > max_character assignments then
        (case hungarian (max_character assignments + 1) (max_task assignments + 1)
                (value_by_character assignments) of
           None \<Rightarrow> None
         | Some (Inl e) \<Rightarrow> Some (Inl e)
         | Some (Inr (max_match, st)) \<Rightarrow>
             Some (Inr (filter_loop (\<lambda>a. task a \<noteq> xy st (character a)) assignments 0)))
      else
        (case hungarian (max_task assignments + 1) (max_character assignments + 1)
                (value_by_task assignments) of
           None \<Rightarrow> None
         | Some (Inl e) \<Rightarrow> Some (Inl e)
         | Some (Inr (max_match, st)) \<Rightarrow>
             Some (Inr (filter_loop (\<lambda>a. task a \<noteq> yx st (character a)) assignments 0))))"

section \<open>Removing an element by swapping it with the last one\<close>

lemma swap_pop_eq: "swap_pop xs i = (butlast xs)[i := last xs]"
proof (cases xs rule: rev_cases)
  case Nil
  then show ?thesis by (simp add: swap_pop_def)
next
  case (snoc ys y)
  show ?thesis
  proof (cases "i < length ys")
    case True
    with snoc show ?thesis
      by (simp add: swap_pop_def list_update_append nth_append)
  next
    case False
    with snoc show ?thesis
      by (cases "i - length ys")
         (simp_all add: swap_pop_def list_update_append nth_append list_update_beyond)
  qed
qed

lemma length_swap_pop [simp]: "length (swap_pop xs i) = length xs - 1"
  by (simp add: swap_pop_eq)

lemma take_swap_pop: "i < length xs \<Longrightarrow> take i (swap_pop xs i) = take i xs"
proof (cases xs rule: rev_cases)
  case Nil
  then show ?thesis by (simp add: swap_pop_def)
next
  case (snoc ys y)
  assume "i < length xs"
  with snoc show ?thesis
    by (simp add: swap_pop_eq)
qed

lemma mset_swap_pop: "i < length xs \<Longrightarrow> mset (swap_pop xs i) = mset xs - {#xs ! i#}"
proof (cases xs rule: rev_cases)
  case Nil
  then show ?thesis by (simp add: swap_pop_def)
next
  case (snoc ys y)
  assume "i < length xs"
  with snoc show ?thesis
    by (cases "i < length ys")
       (auto simp add: swap_pop_eq mset_update nth_append less_Suc_eq list_update_beyond)
qed

lemma mset_filter_loop:
  "\<forall>j < i. \<not> remove (as ! j) \<Longrightarrow> i \<le> length as \<Longrightarrow>
   mset (filter_loop remove as i) = filter_mset (\<lambda>a. \<not> remove a) (mset as)"
proof (induction remove as i rule: filter_loop.induct)
  case (1 remove as i)
  show ?case
  proof (cases "i < length as")
    case False
    with "1.prems" have "i = length as" by simp
    with "1.prems" have "\<forall>a \<in> set as. \<not> remove a"
      by (auto simp: in_set_conv_nth)
    then have "filter_mset (\<lambda>a. \<not> remove a) (mset as) = mset as"
      by (simp add: filter_mset_eq_conv)
    with False show ?thesis by (subst filter_loop.simps) simp
  next
    case True
    show ?thesis
    proof (cases "remove (as ! i)")
      case rm: True
      have "\<forall>j<i. \<not> remove (swap_pop as i ! j)"
      proof (intro allI impI)
        fix j assume "j < i"
        then have "swap_pop as i ! j = take i (swap_pop as i) ! j" by simp
        also have "\<dots> = as ! j" using True \<open>j < i\<close> by (simp add: take_swap_pop)
        finally show "\<not> remove (swap_pop as i ! j)" using "1.prems" \<open>j < i\<close> by simp
      qed
      moreover have "i \<le> length (swap_pop as i)" using True by simp
      ultimately have "mset (filter_loop remove (swap_pop as i) i) =
          filter_mset (\<lambda>a. \<not> remove a) (mset (swap_pop as i))"
        using "1.IH"(1) True rm by blast
      also have "\<dots> = filter_mset (\<lambda>a. \<not> remove a) (mset as)"
        using True rm by (simp add: mset_swap_pop)
      finally show ?thesis using True rm by (subst filter_loop.simps) simp
    next
      case keep: False
      have "\<forall>j<i + 1. \<not> remove (as ! j)"
        using "1.prems" keep by (auto simp: less_Suc_eq)
      then have "mset (filter_loop remove as (i + 1)) = filter_mset (\<lambda>a. \<not> remove a) (mset as)"
        using "1.IH"(2) True keep by simp
      then show ?thesis using True keep by (subst filter_loop.simps) simp
    qed
  qed
qed

section \<open>The loop of LimitAssignments\<close>

lemma mset_insort_cost: "mset (insort_cost a xs) = add_mset a (mset xs)"
  by (induction xs) auto

lemma mset_sort_cost: "mset (sort_cost xs) = mset xs"
  by (induction xs) (auto simp: sort_cost_def mset_insort_cost)

lemma limit_loop_done:
  "\<not> i < length as \<Longrightarrow> limit_loop lc lt as i tpc cpt = Inr as"
  by (subst limit_loop.simps) simp

lemma limit_loop_oob:
  "i < length as \<Longrightarrow> character (as ! i) < 0 \<or> (tpc (character (as ! i)) < lc \<and> task (as ! i) < 0) \<Longrightarrow>
   limit_loop lc lt as i tpc cpt = Inl OutOfBounds"
  by (subst limit_loop.simps) (auto simp: Let_def)

lemma limit_loop_remove:
  "i < length as \<Longrightarrow> 0 \<le> character (as ! i) \<Longrightarrow>
   lc \<le> tpc (character (as ! i)) \<or> (0 \<le> task (as ! i) \<and> lt \<le> cpt (task (as ! i))) \<Longrightarrow>
   limit_loop lc lt as i tpc cpt = limit_loop lc lt (swap_pop as i) i tpc cpt"
  by (subst limit_loop.simps) (auto simp: Let_def)

lemma limit_loop_keep:
  "i < length as \<Longrightarrow> 0 \<le> character (as ! i) \<Longrightarrow> 0 \<le> task (as ! i) \<Longrightarrow>
   tpc (character (as ! i)) < lc \<Longrightarrow> cpt (task (as ! i)) < lt \<Longrightarrow>
   limit_loop lc lt as i tpc cpt =
     limit_loop lc lt as (i + 1) (tpc(character (as ! i) := tpc (character (as ! i)) + 1))
       (cpt(task (as ! i) := cpt (task (as ! i)) + 1))"
  by (subst limit_loop.simps) (simp add: Let_def)

lemma limit_loop_cases:
  fixes tpc cpt :: "int \<Rightarrow> int" and lc lt :: int and as :: "Assignment list"
  obtains (fin) "\<not> i < length as"
  | (oob) "i < length as" "character (as ! i) < 0 \<or> (tpc (character (as ! i)) < lc \<and> task (as ! i) < 0)"
  | (remove) "i < length as" "0 \<le> character (as ! i)"
      "lc \<le> tpc (character (as ! i)) \<or> (0 \<le> task (as ! i) \<and> lt \<le> cpt (task (as ! i)))"
  | (keep) "i < length as" "0 \<le> character (as ! i)" "0 \<le> task (as ! i)"
      "tpc (character (as ! i)) < lc" "cpt (task (as ! i)) < lt"
  by atomize_elim linarith

lemma limit_loop_mset:
  "limit_loop lc lt as i tpc cpt = Inr out \<Longrightarrow> mset out \<subseteq># mset as"
proof (induction "length as - i" arbitrary: as i tpc cpt rule: less_induct)
  case less
  show ?case
  proof (cases rule: limit_loop_cases [where i = i and as = as and tpc = tpc and lc = lc and lt = lt and cpt = cpt])
    case fin
    with less.prems show ?thesis by (simp add: limit_loop_done)
  next
    case oob
    with less.prems show ?thesis by (simp add: limit_loop_oob)
  next
    case remove
    with less.prems have "limit_loop lc lt (swap_pop as i) i tpc cpt = Inr out"
      by (simp add: limit_loop_remove)
    moreover have "length (swap_pop as i) - i < length as - i"
      using remove(1) by simp
    ultimately have "mset out \<subseteq># mset (swap_pop as i)"
      by (rule less.hyps [rotated])
    also have "\<dots> \<subseteq># mset as" using remove(1) by (simp add: mset_swap_pop)
    finally show ?thesis .
  next
    case keep
    with less.prems have "limit_loop lc lt as (i + 1)
        (tpc(character (as ! i) := tpc (character (as ! i)) + 1))
        (cpt(task (as ! i) := cpt (task (as ! i)) + 1)) = Inr out"
      by (simp add: limit_loop_keep)
    moreover have "length as - (i + 1) < length as - i"
      using keep(1) by simp
    ultimately show ?thesis
      by (rule less.hyps [rotated])
  qed
qed

lemma limit_loop_returns:
  "\<forall>a \<in> set as. 0 \<le> character a \<and> 0 \<le> task a \<Longrightarrow>
   \<exists>out. limit_loop lc lt as i tpc cpt = Inr out"
proof (induction "length as - i" arbitrary: as i tpc cpt rule: less_induct)
  case less
  show ?case
  proof (cases rule: limit_loop_cases [where i = i and as = as and tpc = tpc and lc = lc and lt = lt and cpt = cpt])
    case fin
    then show ?thesis by (simp add: limit_loop_done)
  next
    case oob
    with less.prems show ?thesis by (metis not_le nth_mem)
  next
    case remove
    have "\<forall>a \<in> set (swap_pop as i). 0 \<le> character a \<and> 0 \<le> task a"
      using less.prems remove(1) by (metis mset_swap_pop in_diffD set_mset_mset)
    moreover have "length (swap_pop as i) - i < length as - i"
      using remove(1) by simp
    ultimately have "\<exists>out. limit_loop lc lt (swap_pop as i) i tpc cpt = Inr out"
      by (rule less.hyps [rotated])
    with remove show ?thesis by (simp add: limit_loop_remove)
  next
    case keep
    have "length as - (i + 1) < length as - i"
      using keep(1) by simp
    from less.hyps [OF this less.prems] keep show ?thesis
      by (simp add: limit_loop_keep)
  qed
qed

lemma limit_loop_cap:
  assumes "limit_loop lc lt as i tpc cpt = Inr out"
    and "i \<le> length as"
    and "\<forall>c. tpc c = int (count_character c (take i as))" and "\<forall>c. tpc c \<le> lc"
    and "\<forall>t. cpt t = int (count_task t (take i as))" and "\<forall>t. cpt t \<le> lt"
  shows "(\<forall>c. int (count_character c out) \<le> lc) \<and> (\<forall>t. int (count_task t out) \<le> lt)"
  using assms
proof (induction "length as - i" arbitrary: as i tpc cpt rule: less_induct)
  case less
  show ?case
  proof (cases rule: limit_loop_cases [where i = i and as = as and tpc = tpc and lc = lc and lt = lt and cpt = cpt])
    case fin
    with less.prems have "out = as" "take i as = as"
      by (simp_all add: limit_loop_done)
    with less.prems(3-6) show ?thesis by metis
  next
    case oob
    with less.prems show ?thesis by (simp add: limit_loop_oob)
  next
    case remove
    have tk: "take i (swap_pop as i) = take i as" and le: "i \<le> length (swap_pop as i)"
      using remove(1) by (simp_all add: take_swap_pop)
    have m: "length (swap_pop as i) - i < length as - i"
      using remove(1) by simp
    from remove less.prems(1) have r: "limit_loop lc lt (swap_pop as i) i tpc cpt = Inr out"
      by (simp add: limit_loop_remove)
    have c: "\<forall>c. tpc c = int (count_character c (take i (swap_pop as i)))"
      using less.prems(3) unfolding tk .
    have t: "\<forall>t. cpt t = int (count_task t (take i (swap_pop as i)))"
      using less.prems(5) unfolding tk .
    show ?thesis
      by (rule less.hyps [OF m r le c less.prems(4) t less.prems(6)])
  next
    case keep
    let ?a = "as ! i"
    let ?tpc = "tpc(character ?a := tpc (character ?a) + 1)"
    let ?cpt = "cpt(task ?a := cpt (task ?a) + 1)"
    have nxt: "take (i + 1) as = take i as @ [?a]"
      using keep(1) by (simp add: take_Suc_conv_app_nth)
    have m: "length as - (i + 1) < length as - i"
      using keep(1) by simp
    from keep less.prems(1) have r: "limit_loop lc lt as (i + 1) ?tpc ?cpt = Inr out"
      by (simp add: limit_loop_keep)
    have c: "\<forall>c. ?tpc c = int (count_character c (take (i + 1) as))"
      using less.prems(3) unfolding nxt by (simp add: count_character_def)
    have c': "\<forall>c. ?tpc c \<le> lc"
      using less.prems(4) keep(4) by simp
    have t: "\<forall>t. ?cpt t = int (count_task t (take (i + 1) as))"
      using less.prems(5) unfolding nxt by (simp add: count_task_def)
    have t': "\<forall>t. ?cpt t \<le> lt"
      using less.prems(6) keep(5) by simp
    have le: "i + 1 \<le> length as" using keep(1) by simp
    show ?thesis
      by (rule less.hyps [OF m r le c c' t t'])
  qed
qed

section \<open>The loops of Optimize\<close>

text \<open>The counting loops as array updates, and rules for the loops that can be left by
  \<^verbatim>\<open>break\<close>.\<close>

lemma for_loop_invariant:
  assumes "I i0 s0"
    and "\<And>i s. i0 \<le> i \<Longrightarrow> i < n \<Longrightarrow> I i s \<Longrightarrow> I (i + 1) (body i s)"
  shows "I (max i0 n) (for_loop i0 n body s0)"
  using assms
proof (induction i0 n body s0 rule: for_loop.induct)
  case (1 i n body s)
  show ?case
  proof (cases "i < n")
    case True
    have "I (i + 1) (body i s)" using "1.prems" True by simp
    moreover have "\<And>j s. i + 1 \<le> j \<Longrightarrow> j < n \<Longrightarrow> I j s \<Longrightarrow> I (j + 1) (body j s)"
      using "1.prems"(2) by simp
    ultimately have "I (max (i + 1) n) (for_loop (i + 1) n body (body i s))"
      using "1.IH" True by blast
    moreover have "max (i + 1) n = max i n" using True by simp
    ultimately show ?thesis using True by (subst for_loop.simps) simp
  next
    case False
    then have "max i n = i" by simp
    with False "1.prems"(1) show ?thesis by (subst for_loop.simps) simp
  qed
qed

lemma add_to_tree_eq:
  "add_to_tree NY val x prevx st =
     st\<lparr>S := (S st)(x := True), prev := (prev st)(x := prevx),
        slack := (\<lambda>y. if in_range NY y \<and> dless (dsub (dadd (lx st x) (ly st y)) (val x y)) (slack st y)
                       then dsub (dadd (lx st x) (ly st y)) (val x y) else slack st y),
        slackx := (\<lambda>y. if in_range NY y \<and> dless (dsub (dadd (lx st x) (ly st y)) (val x y)) (slack st y)
                       then x else slackx st y)\<rparr>"
proof -
  let ?new = "\<lambda>y. dsub (dadd (lx st x) (ly st y)) (val x y)"
  let ?I = "\<lambda>i s. s = st\<lparr>S := (S st)(x := True), prev := (prev st)(x := prevx),
        slack := (\<lambda>y. if 0 \<le> y \<and> y < i \<and> dless (?new y) (slack st y) then ?new y else slack st y),
        slackx := (\<lambda>y. if 0 \<le> y \<and> y < i \<and> dless (?new y) (slack st y) then x else slackx st y)\<rparr>"
  have "?I (max 0 NY) (add_to_tree NY val x prevx st)"
    unfolding add_to_tree_def
  proof (rule for_loop_invariant)
    show "?I 0 (st\<lparr>S := (S st)(x := True), prev := (prev st)(x := prevx)\<rparr>)"
      by (rule kstate.equality) (auto simp: fun_eq_iff)
  next
    fix i s assume "0 \<le> i" "i < NY" "?I i s"
    then show "?I (i + 1) (if dless (dsub (dadd (lx s x) (ly s i)) (val x i)) (slack s i)
              then s\<lparr>slack := (slack s)(i := dsub (dadd (lx s x) (ly s i)) (val x i)),
                     slackx := (slackx s)(i := x)\<rparr>
              else s)"
      by (intro kstate.equality) (auto simp: fun_eq_iff)
  qed
  then show ?thesis
    by (intro kstate.equality) (auto simp: in_range_def fun_eq_iff max_def split: if_splits)
qed


definition label_delta :: "int \<Rightarrow> kstate \<Rightarrow> double" where
  "label_delta NY st =
     for_loop 0 NY (\<lambda>y delta. if \<not> T st y then std_min delta (slack st y) else delta) (Fin DBL_MAX)"

lemma update_labels_eq:
  "update_labels NX NY st =
     st\<lparr>lx := (\<lambda>x. if in_range NX x \<and> S st x then dsub (lx st x) (label_delta NY st) else lx st x),
        ly := (\<lambda>y. if in_range NY y \<and> T st y then dadd (ly st y) (label_delta NY st) else ly st y),
        slack := (\<lambda>y. if in_range NY y \<and> \<not> T st y then dsub (slack st y) (label_delta NY st)
                       else slack st y)\<rparr>"
proof -
  let ?d = "label_delta NY st"
  let ?A = "\<lambda>i. st\<lparr>lx := (\<lambda>x. if 0 \<le> x \<and> x < i \<and> S st x then dsub (lx st x) ?d else lx st x)\<rparr>"
  let ?B = "\<lambda>i. (?A (max 0 NX))\<lparr>ly := (\<lambda>y. if 0 \<le> y \<and> y < i \<and> T st y then dadd (ly st y) ?d
                       else ly st y)\<rparr>"
  let ?C = "\<lambda>i. (?B (max 0 NY))\<lparr>slack := (\<lambda>y. if 0 \<le> y \<and> y < i \<and> \<not> T st y
                       then dsub (slack st y) ?d else slack st y)\<rparr>"
  have a: "for_loop 0 NX
            (\<lambda>x s. if S s x then s\<lparr>lx := (lx s)(x := dsub (lx s x) ?d)\<rparr> else s) st = ?A (max 0 NX)"
    by (rule for_loop_invariant [where I = "\<lambda>i s. s = ?A i"])
       ((intro kstate.equality; auto simp: fun_eq_iff)+)
  have b: "for_loop 0 NY
            (\<lambda>y s. if T s y then s\<lparr>ly := (ly s)(y := dadd (ly s y) ?d)\<rparr> else s) (?A (max 0 NX))
          = ?B (max 0 NY)"
    by (rule for_loop_invariant [where I = "\<lambda>i s. s = ?B i"])
       ((intro kstate.equality; auto simp: fun_eq_iff)+)
  have c: "for_loop 0 NY
            (\<lambda>y s. if \<not> T s y then s\<lparr>slack := (slack s)(y := dsub (slack s y) ?d)\<rparr> else s)
            (?B (max 0 NY))
          = ?C (max 0 NY)"
    by (rule for_loop_invariant [where I = "\<lambda>i s. s = ?C i"])
       ((intro kstate.equality; auto simp: fun_eq_iff)+)
  have "update_labels NX NY st = ?C (max 0 NY)"
    unfolding update_labels_def Let_def label_delta_def [symmetric] a b c ..
  then show ?thesis
    by (simp only:) (intro kstate.equality; auto simp: in_range_def fun_eq_iff max_def)
qed


lemma find_root_cases:
  "(snd (find_root NX st) = None \<and>
      (\<forall>x. in_range NX x \<longrightarrow> \<not> (xy st x = - 1 \<and> dless (Fin DBL_MIN) (lx st x))))
   \<or> (\<exists>r. snd (find_root NX st) = Some r \<and> in_range NX r \<and> xy st r = - 1)"
proof -
  let ?I = "\<lambda>i (p :: double \<times> int option).
     (snd p = None \<and> fst p = Fin DBL_MIN \<and>
        (\<forall>x. 0 \<le> x \<and> x < i \<longrightarrow> \<not> (xy st x = - 1 \<and> dless (Fin DBL_MIN) (lx st x))))
     \<or> (\<exists>r. snd p = Some r \<and> 0 \<le> r \<and> r < i \<and> xy st r = - 1)"
  have "?I (max 0 NX) (find_root NX st)"
    unfolding find_root_def
  proof (rule for_loop_invariant)
    show "?I 0 (Fin DBL_MIN, None)" by auto
  next
    fix i and s :: "double \<times> int option"
    assume i: "0 \<le> i" "i < NX" and I: "?I i s"
    obtain b ro where s: "s = (b, ro)" by (cases s)
    show "?I (i + 1) ((\<lambda>(best_lx, r). if xy st i = - 1 \<and> dless best_lx (lx st i)
            then (lx st i, Some i) else (best_lx, r)) s)"
    proof (cases "xy st i = - 1 \<and> dless b (lx st i)")
      case True
      with i s show ?thesis by simp
    next
      case False
      from I s consider (none) "ro = None" "b = Fin DBL_MIN"
          "\<forall>x. 0 \<le> x \<and> x < i \<longrightarrow> \<not> (xy st x = - 1 \<and> dless (Fin DBL_MIN) (lx st x))"
        | (some) r where "ro = Some r" "0 \<le> r" "r < i" "xy st r = - 1"
        by auto
      then show ?thesis
      proof cases
        case none
        have "\<forall>x. 0 \<le> x \<and> x < i + 1 \<longrightarrow> \<not> (xy st x = - 1 \<and> dless (Fin DBL_MIN) (lx st x))"
        proof (intro allI impI)
          fix x assume "0 \<le> x \<and> x < i + 1"
          then have "x < i \<or> x = i" by auto
          then show "\<not> (xy st x = - 1 \<and> dless (Fin DBL_MIN) (lx st x))"
            using none False \<open>0 \<le> x \<and> x < i + 1\<close> by auto
        qed
        with none False s i show ?thesis by auto
      next
        case some
        with False s i show ?thesis by auto
      qed
    qed
  qed
  then show ?thesis
    by (auto simp: in_range_def max_def split: if_splits)
qed

lemma init_phase_eq:
  assumes "snd (find_root NX st) = Some r"
  shows "init_phase NX NY val st =
     Inr (st\<lparr>S := (\<lambda>_. False)(r := True), T := (\<lambda>_. False), prev := (\<lambda>_. - 1)(r := - 2),
             q := (q st)(0 := r), wr := 1, rd := 0,
             slack := (\<lambda>y. if in_range NY y then dsub (dadd (lx st r) (ly st y)) (val r y)
                            else slack st y),
             slackx := (\<lambda>y. if in_range NY y then r else slackx st y)\<rparr>)"
proof -
  let ?s0 = "st\<lparr>S := (\<lambda>_. False)(r := True), T := (\<lambda>_. False), prev := (\<lambda>_. - 1)(r := - 2),
             q := (q st)(0 := r), wr := 1, rd := 0\<rparr>"
  let ?A = "\<lambda>i. ?s0\<lparr>
             slack := (\<lambda>y. if 0 \<le> y \<and> y < i then dsub (dadd (lx st r) (ly st y)) (val r y)
                            else slack st y),
             slackx := (\<lambda>y. if 0 \<le> y \<and> y < i then r else slackx st y)\<rparr>"
  have "for_loop 0 NY
          (\<lambda>y s. s\<lparr>slack := (slack s)(y := dsub (dadd (lx s r) (ly s y)) (val r y)),
                    slackx := (slackx s)(y := r)\<rparr>) ?s0 = ?A (max 0 NY)"
    by (rule for_loop_invariant [where I = "\<lambda>i s. s = ?A i"])
       ((intro kstate.equality; auto simp: fun_eq_iff)+)
  then have "init_phase NX NY val st = Inr (?A (max 0 NY))"
    using assms by (simp add: init_phase_def)
  then show ?thesis
    by (simp only:) (simp, intro kstate.equality; auto simp: in_range_def fun_eq_iff max_def)
qed

lemma init_phase_none:
  "snd (find_root NX st) = None \<Longrightarrow> init_phase NX NY val st = Inl Uninitialized"
  by (simp add: init_phase_def)


lemma bfs_scan_end: "\<not> y < NY \<Longrightarrow> bfs_scan NX NY val x y st = Inr (y, st)"
  by (subst bfs_scan.simps) simp

lemma bfs_scan_skip:
  "y < NY \<Longrightarrow> \<not> (eq (val x y) (dadd (lx st x) (ly st y)) \<and> \<not> T st y) \<Longrightarrow>
   bfs_scan NX NY val x y st = bfs_scan NX NY val x (y + 1) st"
  by (subst bfs_scan.simps) auto

lemma bfs_scan_found:
  "y < NY \<Longrightarrow> eq (val x y) (dadd (lx st x) (ly st y)) \<Longrightarrow> \<not> T st y \<Longrightarrow> yx st y = - 1 \<Longrightarrow>
   bfs_scan NX NY val x y st = Inr (y, st)"
  by (subst bfs_scan.simps) simp

lemma bfs_scan_oob:
  "y < NY \<Longrightarrow> eq (val x y) (dadd (lx st x) (ly st y)) \<Longrightarrow> \<not> T st y \<Longrightarrow> yx st y \<noteq> - 1 \<Longrightarrow>
   \<not> in_range NX (wr st) \<or> \<not> in_range NX (yx st y) \<Longrightarrow>
   bfs_scan NX NY val x y st = Inl OutOfBounds"
  by (subst bfs_scan.simps) auto

lemma bfs_scan_add:
  "y < NY \<Longrightarrow> eq (val x y) (dadd (lx st x) (ly st y)) \<Longrightarrow> \<not> T st y \<Longrightarrow> yx st y \<noteq> - 1 \<Longrightarrow>
   in_range NX (wr st) \<Longrightarrow> in_range NX (yx st y) \<Longrightarrow>
   bfs_scan NX NY val x y st =
     bfs_scan NX NY val x (y + 1)
       (add_to_tree NY val (yx st y) x
          (st\<lparr>T := (T st)(y := True), q := (q st)(wr st := yx st y), wr := wr st + 1\<rparr>))"
  by (subst bfs_scan.simps) simp

lemma bfs_scan_rule:
  assumes "P y st"
    and skip: "\<And>y st. P y st \<Longrightarrow> y < NY \<Longrightarrow>
        \<not> (eq (val x y) (dadd (lx st x) (ly st y)) \<and> \<not> T st y) \<Longrightarrow> P (y + 1) st"
    and add: "\<And>y st. P y st \<Longrightarrow> y < NY \<Longrightarrow> eq (val x y) (dadd (lx st x) (ly st y)) \<Longrightarrow>
        \<not> T st y \<Longrightarrow> yx st y \<noteq> - 1 \<Longrightarrow>
        in_range NX (wr st) \<and> in_range NX (yx st y) \<and>
        P (y + 1) (add_to_tree NY val (yx st y) x
             (st\<lparr>T := (T st)(y := True), q := (q st)(wr st := yx st y), wr := wr st + 1\<rparr>))"
  shows "\<exists>y' st'. bfs_scan NX NY val x y st = Inr (y', st') \<and> P y' st' \<and>
           (y' < NY \<longrightarrow> eq (val x y') (dadd (lx st' x) (ly st' y')) \<and> \<not> T st' y' \<and> yx st' y' = - 1)"
  using assms(1)
proof (induction "nat (NY - y)" arbitrary: y st rule: less_induct)
  case less
  show ?case
  proof (cases "y < NY")
    case False
    with less.prems show ?thesis by (simp add: bfs_scan_end)
  next
    case True
    then have m: "nat (NY - (y + 1)) < nat (NY - y)" by simp
    show ?thesis
    proof (cases "eq (val x y) (dadd (lx st x) (ly st y)) \<and> \<not> T st y")
      case f: False
      have "P (y + 1) st" using less.prems True f by (rule skip)
      from less.hyps [OF m this] show ?thesis
        by (simp only: bfs_scan_skip [where val = val and x = x and st = st, OF True f])
    next
      case t: True
      show ?thesis
      proof (cases "yx st y = - 1")
        case e: True
        with True t less.prems show ?thesis by (simp add: bfs_scan_found)
      next
        case ne: False
        let ?st = "add_to_tree NY val (yx st y) x
             (st\<lparr>T := (T st)(y := True), q := (q st)(wr st := yx st y), wr := wr st + 1\<rparr>)"
        have "in_range NX (wr st) \<and> in_range NX (yx st y) \<and> P (y + 1) ?st"
          using less.prems True t ne by (intro add) simp_all
        then have r: "in_range NX (wr st)" "in_range NX (yx st y)" and p: "P (y + 1) ?st"
          by simp_all
        from t have t1: "eq (val x y) (dadd (lx st x) (ly st y))" and t2: "\<not> T st y" by simp_all
        from less.hyps [OF m p] show ?thesis
          by (simp only: bfs_scan_add [where val = val and x = x and st = st, OF True t1 t2 ne r])
      qed
    qed
  qed
qed


lemma slack_scan_end: "\<not> y < NY \<Longrightarrow> slack_scan NX NY val y st = Inr (None, st)"
  by (subst slack_scan.simps) simp

lemma slack_scan_skip:
  "y < NY \<Longrightarrow> \<not> (\<not> T st y \<and> eq (slack st y) (Fin 0)) \<Longrightarrow>
   slack_scan NX NY val y st = slack_scan NX NY val (y + 1) st"
  by (subst slack_scan.simps) auto

lemma slack_scan_found:
  "y < NY \<Longrightarrow> \<not> T st y \<Longrightarrow> eq (slack st y) (Fin 0) \<Longrightarrow> yx st y = - 1 \<Longrightarrow>
   slack_scan NX NY val y st = Inr (Some (slackx st y, y), st)"
  by (subst slack_scan.simps) simp

lemma slack_scan_add:
  "y < NY \<Longrightarrow> \<not> T st y \<Longrightarrow> eq (slack st y) (Fin 0) \<Longrightarrow> yx st y \<noteq> - 1 \<Longrightarrow>
   in_range NX (yx st y) \<Longrightarrow> \<not> S st (yx st y) \<Longrightarrow> in_range NX (wr st) \<Longrightarrow>
   slack_scan NX NY val y st =
     slack_scan NX NY val (y + 1)
       (add_to_tree NY val (yx st y) (slackx st y)
          (st\<lparr>T := (T st)(y := True), q := (q st)(wr st := yx st y), wr := wr st + 1\<rparr>))"
  by (subst slack_scan.simps) simp

lemma slack_scan_mark:
  "y < NY \<Longrightarrow> \<not> T st y \<Longrightarrow> eq (slack st y) (Fin 0) \<Longrightarrow> yx st y \<noteq> - 1 \<Longrightarrow>
   in_range NX (yx st y) \<Longrightarrow> S st (yx st y) \<Longrightarrow>
   slack_scan NX NY val y st = slack_scan NX NY val (y + 1) (st\<lparr>T := (T st)(y := True)\<rparr>)"
  by (subst slack_scan.simps) simp

lemma slack_scan_rule:
  assumes "P y st"
    and skip: "\<And>y st. P y st \<Longrightarrow> y < NY \<Longrightarrow> \<not> (\<not> T st y \<and> eq (slack st y) (Fin 0)) \<Longrightarrow>
        P (y + 1) st"
    and add: "\<And>y st. P y st \<Longrightarrow> y < NY \<Longrightarrow> \<not> T st y \<Longrightarrow> eq (slack st y) (Fin 0) \<Longrightarrow>
        yx st y \<noteq> - 1 \<Longrightarrow>
        in_range NX (yx st y) \<and> \<not> S st (yx st y) \<and> in_range NX (wr st) \<and>
        P (y + 1) (add_to_tree NY val (yx st y) (slackx st y)
             (st\<lparr>T := (T st)(y := True), q := (q st)(wr st := yx st y), wr := wr st + 1\<rparr>))"
  shows "\<exists>res st'. slack_scan NX NY val y st = Inr (res, st') \<and>
           ((res = None \<and> (\<exists>y'. \<not> y' < NY \<and> P y' st')) \<or>
            (\<exists>y'. res = Some (slackx st' y', y') \<and> y' < NY \<and> P y' st' \<and> \<not> T st' y' \<and>
                  eq (slack st' y') (Fin 0) \<and> yx st' y' = - 1))"
  using assms(1)
proof (induction "nat (NY - y)" arbitrary: y st rule: less_induct)
  case less
  show ?case
  proof (cases "y < NY")
    case False
    with less.prems show ?thesis by (auto simp add: slack_scan_end)
  next
    case True
    then have m: "nat (NY - (y + 1)) < nat (NY - y)" by simp
    show ?thesis
    proof (cases "\<not> T st y \<and> eq (slack st y) (Fin 0)")
      case f: False
      have "P (y + 1) st" using less.prems True f by (rule skip)
      from less.hyps [OF m this] show ?thesis
        by (simp only: slack_scan_skip [where st = st, OF True f])
    next
      case t: True
      then have t1: "\<not> T st y" and t2: "eq (slack st y) (Fin 0)" by simp_all
      show ?thesis
      proof (cases "yx st y = - 1")
        case e: True
        with True t less.prems show ?thesis by (auto simp add: slack_scan_found)
      next
        case ne: False
        let ?st = "add_to_tree NY val (yx st y) (slackx st y)
             (st\<lparr>T := (T st)(y := True), q := (q st)(wr st := yx st y), wr := wr st + 1\<rparr>)"
        have "in_range NX (yx st y) \<and> \<not> S st (yx st y) \<and> in_range NX (wr st) \<and> P (y + 1) ?st"
          using less.prems True t1 t2 ne by (rule add)
        then have r: "in_range NX (yx st y)" "\<not> S st (yx st y)" "in_range NX (wr st)"
          and p: "P (y + 1) ?st"
          by simp_all
        from less.hyps [OF m p] show ?thesis
          by (simp only: slack_scan_add [where st = st, OF True t1 t2 ne r])
      qed
    qed
  qed
qed

lemma bfs_unfold:
  "rd st < wr st \<Longrightarrow> bfs_scan NX NY val (q st (rd st)) 0 (st\<lparr>rd := rd st + 1\<rparr>) = Inr (y, st') \<Longrightarrow>
   bfs NX NY val st = (if y < NY then Inr (Some (q st (rd st), y), st') else bfs NX NY val st')"
  by (subst bfs.simps) simp

lemma bfs_end: "\<not> rd st < wr st \<Longrightarrow> bfs NX NY val st = Inr (None, st)"
  by (subst bfs.simps) simp

lemma bfs_rule:
  assumes "Q st"
    and step: "\<And>st. Q st \<Longrightarrow> rd st < wr st \<Longrightarrow>
      \<exists>y' st'. bfs_scan NX NY val (q st (rd st)) 0 (st\<lparr>rd := rd st + 1\<rparr>) = Inr (y', st') \<and>
         (if y' < NY then R (q st (rd st)) y' st' else Q st')"
  shows "\<exists>res st'. bfs NX NY val st = Inr (res, st') \<and>
           ((res = None \<and> Q st' \<and> \<not> rd st' < wr st') \<or> (\<exists>x y. res = Some (x, y) \<and> R x y st'))"
  using assms(1)
proof (induction "nat (max (wr st) NX - rd st)" arbitrary: st rule: less_induct)
  case less
  show ?case
  proof (cases "rd st < wr st")
    case False
    with less.prems show ?thesis by (simp add: bfs_end)
  next
    case True
    from step [OF less.prems True] obtain y' st' where
      sc: "bfs_scan NX NY val (q st (rd st)) 0 (st\<lparr>rd := rd st + 1\<rparr>) = Inr (y', st')"
      and r: "if y' < NY then R (q st (rd st)) y' st' else Q st'"
      by blast
    show ?thesis
    proof (cases "y' < NY")
      case found: True
      with r show ?thesis by (simp add: bfs_unfold [OF True sc])
    next
      case nf: False
      from bfs_scan_queue [OF sc] True
      have m: "nat (max (wr st') NX - rd st') < nat (max (wr st) NX - rd st)" by auto
      from nf r have "Q st'" by simp
      from less.hyps [OF m this] nf show ?thesis
        by (simp add: bfs_unfold [OF True sc])
    qed
  qed
qed

section \<open>The matching and the alternating tree\<close>

text \<open>The arrays \<^verbatim>\<open>xy\<close> and \<^verbatim>\<open>yx\<close> hold a matching: each is the inverse of the other
  where it is not \<open>-1\<close>.\<close>

definition match_inv :: "int \<Rightarrow> int \<Rightarrow> kstate \<Rightarrow> bool" where
  "match_inv NX NY st \<longleftrightarrow>
     (\<forall>x. in_range NX x \<longrightarrow> xy st x = - 1 \<or> (in_range NY (xy st x) \<and> yx st (xy st x) = x)) \<and>
     (\<forall>y. in_range NY y \<longrightarrow> yx st y = - 1 \<or> (in_range NX (yx st y) \<and> xy st (yx st y) = y))"

definition tree_ranked :: "int \<Rightarrow> (int \<Rightarrow> nat) \<Rightarrow> kstate \<Rightarrow> bool" where
  "tree_ranked r rank st \<longleftrightarrow>
     (\<forall>x. S st x \<and> x \<noteq> r \<longrightarrow>
        xy st x \<noteq> - 1 \<and> T st (xy st x) \<and> S st (prev st x) \<and> rank (prev st x) < rank x)"

definition tree_inv :: "int \<Rightarrow> int \<Rightarrow> int \<Rightarrow> kstate \<Rightarrow> bool" where
  "tree_inv NX NY r st \<longleftrightarrow>
     match_inv NX NY st \<and>
     in_range NX r \<and> xy st r = - 1 \<and> S st r \<and> prev st r = - 2 \<and>
     (\<forall>x. S st x \<longrightarrow> in_range NX x) \<and>
     (\<forall>y. T st y \<longrightarrow> in_range NY y \<and> yx st y \<noteq> - 1 \<and> S st (yx st y)) \<and>
     (\<exists>rank. tree_ranked r rank st) \<and>
     (\<forall>y. in_range NY y \<longrightarrow> S st (slackx st y)) \<and>
     (\<forall>i. rd st \<le> i \<and> i < wr st \<longrightarrow> S st (q st i)) \<and>
     0 \<le> wr st \<and> wr st \<le> int (card {x. S st x})"

lemma finite_in_range: "finite {x. in_range n x}"
proof -
  have "{x. in_range n x} = {0..<n}" by (auto simp: in_range_def)
  then show ?thesis by simp
qed

lemma card_in_range: "0 \<le> n \<Longrightarrow> int (card {x. in_range n x}) = n"
proof -
  have "{x. in_range n x} = {0..<n}" by (auto simp: in_range_def)
  then show "0 \<le> n \<Longrightarrow> int (card {x. in_range n x}) = n" by simp
qed

lemma tree_add_step:
  assumes inv: "tree_inv NX NY r st" and x0: "S st x0"
    and y: "in_range NY y" "\<not> T st y" "yx st y \<noteq> - 1"
  shows "in_range NX (yx st y) \<and> \<not> S st (yx st y) \<and> in_range NX (wr st) \<and>
     tree_inv NX NY r (add_to_tree NY val (yx st y) x0
        (st\<lparr>T := (T st)(y := True), q := (q st)(wr st := yx st y), wr := wr st + 1\<rparr>))"
proof -
  let ?x = "yx st y"
  let ?st = "add_to_tree NY val ?x x0
        (st\<lparr>T := (T st)(y := True), q := (q st)(wr st := ?x), wr := wr st + 1\<rparr>)"
  from inv have m: "match_inv NX NY st"
    and r: "in_range NX r" "xy st r = - 1" "S st r" "prev st r = - 2"
    and Sr: "\<forall>x. S st x \<longrightarrow> in_range NX x"
    and Tr: "\<forall>y. T st y \<longrightarrow> in_range NY y \<and> yx st y \<noteq> - 1 \<and> S st (yx st y)"
    and sx: "\<forall>y. in_range NY y \<longrightarrow> S st (slackx st y)"
    and qu: "\<forall>i. rd st \<le> i \<and> i < wr st \<longrightarrow> S st (q st i)"
    and wr: "0 \<le> wr st" "wr st \<le> int (card {x. S st x})"
    by (simp_all add: tree_inv_def)
  from inv obtain rank where rk: "tree_ranked r rank st"
    by (auto simp: tree_inv_def)
  from m y have xr: "in_range NX ?x" and xyx: "xy st ?x = y"
    by (auto simp: match_inv_def)
  have xS: "\<not> S st ?x"
  proof
    assume a: "S st ?x"
    show False
    proof (cases "?x = r")
      case True
      with r(2) xyx y(1) show False by (simp add: in_range_def)
    next
      case False
      with a rk have "T st (xy st ?x)" by (simp add: tree_ranked_def)
      with xyx y(2) show False by simp
    qed
  qed
  have fin: "finite {x. S st x}"
    by (rule finite_subset [OF _ finite_in_range [of NX]]) (use Sr in auto)
  have "insert ?x {x. S st x} \<subseteq> {x. in_range NX x}"
    using Sr xr by auto
  then have "card (insert ?x {x. S st x}) \<le> card {x. in_range NX x}"
    by (intro card_mono finite_in_range)
  moreover have "card (insert ?x {x. S st x}) = card {x. S st x} + 1"
    using fin xS by simp
  moreover have "0 \<le> NX" using r(1) by (simp add: in_range_def)
  ultimately have cardS: "int (card {x. S st x}) + 1 \<le> NX"
    using card_in_range [of NX] by linarith
  with wr have wrr: "in_range NX (wr st)" by (simp add: in_range_def)
  have xr0: "?x \<noteq> r" using xS r(3) by auto
  have xx0: "x0 \<noteq> ?x" using xS x0 by auto
  have S': "S ?st = (S st)(?x := True)" and T': "T ?st = (T st)(y := True)"
    and p': "prev ?st = (prev st)(?x := x0)" and xy': "xy ?st = xy st" and yx': "yx ?st = yx st"
    and q': "q ?st = (q st)(wr st := ?x)" and wr': "wr ?st = wr st + 1" and rd': "rd ?st = rd st"
    by (simp_all add: add_to_tree_eq)
  have sx': "\<forall>y'. slackx ?st y' = ?x \<or> slackx ?st y' = slackx st y'"
    by (simp add: add_to_tree_eq)
  have "match_inv NX NY ?st"
    using m by (simp add: match_inv_def xy' yx')
  moreover have "in_range NX r \<and> xy ?st r = - 1 \<and> S ?st r \<and> prev ?st r = - 2"
    using r xr0 by (simp add: S' p' xy')
  moreover have "\<forall>x. S ?st x \<longrightarrow> in_range NX x"
    using Sr xr by (simp add: S')
  moreover have "\<forall>y'. T ?st y' \<longrightarrow> in_range NY y' \<and> yx ?st y' \<noteq> - 1 \<and> S ?st (yx ?st y')"
    using Tr y by (simp add: S' T' yx')
  moreover have "tree_ranked r (rank(?x := Suc (rank x0))) ?st"
    unfolding tree_ranked_def
  proof (intro allI impI)
    fix z assume z: "S ?st z \<and> z \<noteq> r"
    show "xy ?st z \<noteq> - 1 \<and> T ?st (xy ?st z) \<and> S ?st (prev ?st z) \<and>
        (rank(?x := Suc (rank x0))) (prev ?st z) < (rank(?x := Suc (rank x0))) z"
    proof (cases "z = ?x")
      case True
      with xyx y(1) x0 xx0 show ?thesis
        by (simp add: S' T' p' xy' in_range_def)
    next
      case False
      with z have zS: "S st z" "z \<noteq> r" by (simp_all add: S')
      with rk have a: "xy st z \<noteq> - 1" "T st (xy st z)" "S st (prev st z)"
        "rank (prev st z) < rank z"
        by (simp_all add: tree_ranked_def)
      from a(3) xS have "prev st z \<noteq> ?x" by auto
      with a False show ?thesis
        by (simp add: S' T' p' xy')
    qed
  qed
  then have "\<exists>rk. tree_ranked r rk ?st" by blast
  moreover have "\<forall>y'. in_range NY y' \<longrightarrow> S ?st (slackx ?st y')"
    using sx sx' by (metis S' fun_upd_apply)
  moreover have "\<forall>i. rd ?st \<le> i \<and> i < wr ?st \<longrightarrow> S ?st (q ?st i)"
    using qu by (simp add: S' q' wr' rd')
  moreover have "0 \<le> wr ?st \<and> wr ?st \<le> int (card {x. S ?st x})"
  proof -
    have "{x. S ?st x} = insert ?x {x. S st x}" by (auto simp: S')
    then have "card {x. S ?st x} = card {x. S st x} + 1" using fin xS by simp
    with wr show ?thesis by (simp add: wr')
  qed
  ultimately have "tree_inv NX NY r ?st"
    unfolding tree_inv_def by blast
  with xr xS wrr show ?thesis by blast
qed


lemma tree_inv_rd:
  assumes "tree_inv NX NY r st" and "rd st < wr st"
  shows "tree_inv NX NY r (st\<lparr>rd := rd st + 1\<rparr>)" and "S st (q st (rd st))"
  using assms by (auto simp: tree_inv_def match_inv_def tree_ranked_def)

lemma tree_inv_update_labels:
  assumes "tree_inv NX NY r st"
  shows "tree_inv NX NY r ((update_labels NX NY st)\<lparr>wr := 0, rd := 0\<rparr>)"
  using assms by (auto simp: tree_inv_def match_inv_def tree_ranked_def update_labels_eq)

text \<open>The found edge\<close>

definition exposed :: "int \<Rightarrow> kstate \<Rightarrow> int \<Rightarrow> int \<Rightarrow> bool" where
  "exposed NY st x y \<longleftrightarrow> S st x \<and> in_range NY y \<and> yx st y = - 1 \<and> \<not> T st y"

lemma bfs_scan_inv:
  assumes inv: "tree_inv NX NY r st" "J st" and x0: "S st x0" and y0: "0 \<le> y0"
    and J_add: "\<And>st y. tree_inv NX NY r st \<Longrightarrow> J st \<Longrightarrow> S st x0 \<Longrightarrow> in_range NY y \<Longrightarrow>
        \<not> T st y \<Longrightarrow> yx st y \<noteq> - 1 \<Longrightarrow> eq (val x0 y) (dadd (lx st x0) (ly st y)) \<Longrightarrow>
        J (add_to_tree NY val (yx st y) x0
            (st\<lparr>T := (T st)(y := True), q := (q st)(wr st := yx st y), wr := wr st + 1\<rparr>))"
  shows "\<exists>y' st'. bfs_scan NX NY val x0 y0 st = Inr (y', st') \<and> tree_inv NX NY r st' \<and> J st' \<and>
           (y' < NY \<longrightarrow> exposed NY st' x0 y' \<and> eq (val x0 y') (dadd (lx st' x0) (ly st' y')))"
proof -
  let ?P = "\<lambda>y st. tree_inv NX NY r st \<and> J st \<and> S st x0 \<and> 0 \<le> y"
  have "\<exists>y' st'. bfs_scan NX NY val x0 y0 st = Inr (y', st') \<and> ?P y' st' \<and>
           (y' < NY \<longrightarrow> eq (val x0 y') (dadd (lx st' x0) (ly st' y')) \<and> \<not> T st' y' \<and> yx st' y' = - 1)"
  proof (rule bfs_scan_rule [where P = ?P])
    show "?P y0 st" using inv x0 y0 by simp
  next
    fix y st assume "?P y st" "y < NY"
    then show "?P (y + 1) st" by simp
  next
    fix y st
    assume p: "?P y st" and y: "y < NY" and e: "eq (val x0 y) (dadd (lx st x0) (ly st y))"
      and t: "\<not> T st y" and m: "yx st y \<noteq> - 1"
    let ?st = "add_to_tree NY val (yx st y) x0
             (st\<lparr>T := (T st)(y := True), q := (q st)(wr st := yx st y), wr := wr st + 1\<rparr>)"
    from p y have yr: "in_range NY y" by (simp add: in_range_def)
    from p have ti: "tree_inv NX NY r st" and j: "J st" and sx: "S st x0" by simp_all
    from tree_add_step [OF ti sx yr t m, of val]
    have a: "in_range NX (yx st y)" "in_range NX (wr st)" "tree_inv NX NY r ?st" by simp_all
    have "J ?st" using ti j sx yr t m e by (rule J_add)
    moreover have "S ?st x0" using sx by (simp add: add_to_tree_eq)
    ultimately show "in_range NX (wr st) \<and> in_range NX (yx st y) \<and> ?P (y + 1) ?st"
      using a p by simp
  qed
  then show ?thesis
    by (auto simp: exposed_def in_range_def)
qed

lemma bfs_inv:
  assumes inv: "tree_inv NX NY r st" "J st"
    and J_rd: "\<And>st. tree_inv NX NY r st \<Longrightarrow> J st \<Longrightarrow> rd st < wr st \<Longrightarrow> J (st\<lparr>rd := rd st + 1\<rparr>)"
    and J_add: "\<And>st x0 y. tree_inv NX NY r st \<Longrightarrow> J st \<Longrightarrow> S st x0 \<Longrightarrow> in_range NY y \<Longrightarrow>
        \<not> T st y \<Longrightarrow> yx st y \<noteq> - 1 \<Longrightarrow> eq (val x0 y) (dadd (lx st x0) (ly st y)) \<Longrightarrow>
        J (add_to_tree NY val (yx st y) x0
            (st\<lparr>T := (T st)(y := True), q := (q st)(wr st := yx st y), wr := wr st + 1\<rparr>))"
  shows "\<exists>res st'. bfs NX NY val st = Inr (res, st') \<and> tree_inv NX NY r st' \<and> J st' \<and>
           ((res = None \<and> \<not> rd st' < wr st') \<or>
            (\<exists>x y. res = Some (x, y) \<and> exposed NY st' x y \<and>
                   eq (val x y) (dadd (lx st' x) (ly st' y))))"
proof -
  let ?Q = "\<lambda>st. tree_inv NX NY r st \<and> J st"
  let ?R = "\<lambda>x y st. tree_inv NX NY r st \<and> J st \<and> exposed NY st x y \<and>
                   eq (val x y) (dadd (lx st x) (ly st y))"
  have "\<exists>res st'. bfs NX NY val st = Inr (res, st') \<and>
           ((res = None \<and> ?Q st' \<and> \<not> rd st' < wr st') \<or> (\<exists>x y. res = Some (x, y) \<and> ?R x y st'))"
  proof (rule bfs_rule [where Q = ?Q and R = ?R])
    show "?Q st" using inv by simp
  next
    fix st assume q: "?Q st" and lt: "rd st < wr st"
    let ?x = "q st (rd st)"
    let ?st = "st\<lparr>rd := rd st + 1\<rparr>"
    from q lt have ti: "tree_inv NX NY r ?st" and sx: "S ?st ?x"
      using tree_inv_rd [of NX NY r st] by simp_all
    from q lt have j: "J ?st" using J_rd by blast
    have "\<exists>y' st'. bfs_scan NX NY val ?x 0 ?st = Inr (y', st') \<and> tree_inv NX NY r st' \<and> J st' \<and>
           (y' < NY \<longrightarrow> exposed NY st' ?x y' \<and> eq (val ?x y') (dadd (lx st' ?x) (ly st' y')))"
      by (rule bfs_scan_inv [where J = J, OF ti j sx]) (simp, rule J_add)
    then show "\<exists>y' st'. bfs_scan NX NY val ?x 0 ?st = Inr (y', st') \<and>
         (if y' < NY then ?R ?x y' st' else ?Q st')"
      by auto
  qed
  then show ?thesis by blast
qed


lemma slack_scan_inv:
  assumes inv: "tree_inv NX NY r st" "J y0 st" and y0: "0 \<le> y0" "y0 \<le> NY"
    and J_skip: "\<And>st y. tree_inv NX NY r st \<Longrightarrow> J y st \<Longrightarrow> in_range NY y \<Longrightarrow>
        \<not> (\<not> T st y \<and> eq (slack st y) (Fin 0)) \<Longrightarrow> J (y + 1) st"
    and J_add: "\<And>st y. tree_inv NX NY r st \<Longrightarrow> J y st \<Longrightarrow> in_range NY y \<Longrightarrow>
        \<not> T st y \<Longrightarrow> yx st y \<noteq> - 1 \<Longrightarrow> eq (slack st y) (Fin 0) \<Longrightarrow>
        J (y + 1) (add_to_tree NY val (yx st y) (slackx st y)
            (st\<lparr>T := (T st)(y := True), q := (q st)(wr st := yx st y), wr := wr st + 1\<rparr>))"
  shows "\<exists>res st'. slack_scan NX NY val y0 st = Inr (res, st') \<and> tree_inv NX NY r st' \<and>
           ((res = None \<and> J NY st') \<or>
            (\<exists>y'. res = Some (slackx st' y', y') \<and> J y' st' \<and> exposed NY st' (slackx st' y') y' \<and>
                  eq (slack st' y') (Fin 0)))"
proof -
  let ?P = "\<lambda>y st. tree_inv NX NY r st \<and> J y st \<and> 0 \<le> y \<and> y \<le> NY"
  have "\<exists>res st'. slack_scan NX NY val y0 st = Inr (res, st') \<and>
           ((res = None \<and> (\<exists>y'. \<not> y' < NY \<and> ?P y' st')) \<or>
            (\<exists>y'. res = Some (slackx st' y', y') \<and> y' < NY \<and> ?P y' st' \<and> \<not> T st' y' \<and>
                  eq (slack st' y') (Fin 0) \<and> yx st' y' = - 1))"
  proof (rule slack_scan_rule [where P = ?P])
    show "?P y0 st" using inv y0 by simp
  next
    fix y st assume p: "?P y st" and y: "y < NY"
      and n: "\<not> (\<not> T st y \<and> eq (slack st y) (Fin 0))"
    from p y have "in_range NY y" by (simp add: in_range_def)
    with p n have "J (y + 1) st" using J_skip by blast
    with p y show "?P (y + 1) st" by simp
  next
    fix y st
    assume p: "?P y st" and y: "y < NY" and t: "\<not> T st y" and e: "eq (slack st y) (Fin 0)"
      and m: "yx st y \<noteq> - 1"
    let ?st = "add_to_tree NY val (yx st y) (slackx st y)
             (st\<lparr>T := (T st)(y := True), q := (q st)(wr st := yx st y), wr := wr st + 1\<rparr>)"
    from p y have yr: "in_range NY y" by (simp add: in_range_def)
    from p have ti: "tree_inv NX NY r st" and j: "J y st" by simp_all
    from ti yr have sx: "S st (slackx st y)" by (simp add: tree_inv_def)
    from tree_add_step [OF ti sx yr t m, of val]
    have a: "in_range NX (yx st y)" "\<not> S st (yx st y)" "in_range NX (wr st)" "tree_inv NX NY r ?st"
      by simp_all
    have "J (y + 1) ?st" using ti j yr t m e by (rule J_add)
    with a p y show "in_range NX (yx st y) \<and> \<not> S st (yx st y) \<and> in_range NX (wr st) \<and>
        ?P (y + 1) ?st"
      by simp
  qed
  then obtain res st' where
    sc: "slack_scan NX NY val y0 st = Inr (res, st')"
    and c: "(res = None \<and> (\<exists>y'. \<not> y' < NY \<and> ?P y' st')) \<or>
            (\<exists>y'. res = Some (slackx st' y', y') \<and> y' < NY \<and> ?P y' st' \<and> \<not> T st' y' \<and>
                  eq (slack st' y') (Fin 0) \<and> yx st' y' = - 1)"
    by blast
  from c show ?thesis
  proof
    assume "res = None \<and> (\<exists>y'. \<not> y' < NY \<and> ?P y' st')"
    then obtain y' where "res = None" "\<not> y' < NY" "?P y' st'" by blast
    then have "y' = NY" "tree_inv NX NY r st'" "J y' st'" by auto
    then have "tree_inv NX NY r st'" "J NY st'" by simp_all
    with sc \<open>res = None\<close> show ?thesis by blast
  next
    assume "\<exists>y'. res = Some (slackx st' y', y') \<and> y' < NY \<and> ?P y' st' \<and> \<not> T st' y' \<and>
                  eq (slack st' y') (Fin 0) \<and> yx st' y' = - 1"
    then obtain y' where y': "res = Some (slackx st' y', y')" "y' < NY" "?P y' st'" "\<not> T st' y'"
      "eq (slack st' y') (Fin 0)" "yx st' y' = - 1"
      by blast
    then have yr: "in_range NY y'" by (simp add: in_range_def)
    with y' have "S st' (slackx st' y')" by (simp add: tree_inv_def)
    with y' yr have "exposed NY st' (slackx st' y') y'" by (simp add: exposed_def)
    with sc y' show ?thesis by blast
  qed
qed


definition found_edge :: "(int \<Rightarrow> int \<Rightarrow> double) \<Rightarrow> kstate \<Rightarrow> int \<Rightarrow> int \<Rightarrow> bool" where
  "found_edge val st x y \<longleftrightarrow>
     eq (val x y) (dadd (lx st x) (ly st y)) \<or> (x = slackx st y \<and> eq (slack st y) (Fin 0))"

lemma main_cycle_partial:
  assumes run: "main_cycle NX NY val st = Some res"
    and inv: "tree_inv NX NY r st" "J st" and NY0: "0 \<le> NY"
    and J_rd: "\<And>st. tree_inv NX NY r st \<Longrightarrow> J st \<Longrightarrow> rd st < wr st \<Longrightarrow> J (st\<lparr>rd := rd st + 1\<rparr>)"
    and J_bfs: "\<And>st x0 y. tree_inv NX NY r st \<Longrightarrow> J st \<Longrightarrow> S st x0 \<Longrightarrow> in_range NY y \<Longrightarrow>
        \<not> T st y \<Longrightarrow> yx st y \<noteq> - 1 \<Longrightarrow> eq (val x0 y) (dadd (lx st x0) (ly st y)) \<Longrightarrow>
        J (add_to_tree NY val (yx st y) x0
            (st\<lparr>T := (T st)(y := True), q := (q st)(wr st := yx st y), wr := wr st + 1\<rparr>))"
    and J_update: "\<And>st. tree_inv NX NY r st \<Longrightarrow> J st \<Longrightarrow> \<not> rd st < wr st \<Longrightarrow>
        J ((update_labels NX NY st)\<lparr>wr := 0, rd := 0\<rparr>)"
    and J_slack: "\<And>st y. tree_inv NX NY r st \<Longrightarrow> J st \<Longrightarrow> in_range NY y \<Longrightarrow>
        \<not> T st y \<Longrightarrow> yx st y \<noteq> - 1 \<Longrightarrow> eq (slack st y) (Fin 0) \<Longrightarrow>
        J (add_to_tree NY val (yx st y) (slackx st y)
            (st\<lparr>T := (T st)(y := True), q := (q st)(wr st := yx st y), wr := wr st + 1\<rparr>))"
  shows "\<exists>x y st'. res = Inr (x, y, st') \<and> tree_inv NX NY r st' \<and> J st' \<and>
           exposed NY st' x y \<and> found_edge val st' x y"
proof -
  let ?C = "\<lambda>res. \<exists>x y st'. res = Inr (x, y, st') \<and> tree_inv NX NY r st' \<and> J st' \<and>
           exposed NY st' x y \<and> found_edge val st' x y"
  have "NX' = NX \<longrightarrow> NY' = NY \<longrightarrow> val' = val \<longrightarrow> tree_inv NX NY r st \<longrightarrow> J st \<longrightarrow> ?C res"
    if "main_cycle NX' NY' val' st = Some res" for NX' NY' val'
    using that
  proof (induction rule: main_cycle.raw_induct [rotated, consumes 1, case_names step])
    case (step f NX' NY' val' st res)
    show ?case
    proof (intro impI)
      assume eqs: "NX' = NX" "NY' = NY" "val' = val" and ti: "tree_inv NX NY r st" and j: "J st"
      have "\<exists>b st1. bfs NX NY val st = Inr (b, st1) \<and> tree_inv NX NY r st1 \<and> J st1 \<and>
           ((b = None \<and> \<not> rd st1 < wr st1) \<or>
            (\<exists>x y. b = Some (x, y) \<and> exposed NY st1 x y \<and>
                   eq (val x y) (dadd (lx st1 x) (ly st1 y))))"
        by (rule bfs_inv [where J = J, OF ti j J_rd J_bfs])
      then obtain b st1 where
        b: "bfs NX NY val st = Inr (b, st1)" and ti1: "tree_inv NX NY r st1" and j1: "J st1"
        and bc: "(b = None \<and> \<not> rd st1 < wr st1) \<or>
            (\<exists>x y. b = Some (x, y) \<and> exposed NY st1 x y \<and>
                   eq (val x y) (dadd (lx st1 x) (ly st1 y)))"
        by blast
      from bc show "?C res"
      proof
        assume "\<exists>x y. b = Some (x, y) \<and> exposed NY st1 x y \<and>
                   eq (val x y) (dadd (lx st1 x) (ly st1 y))"
        then obtain x y where "b = Some (x, y)" "exposed NY st1 x y"
          "eq (val x y) (dadd (lx st1 x) (ly st1 y))" by blast
        with step.hyps b ti1 j1 eqs show ?thesis
          by (auto simp: found_edge_def)
      next
        assume n: "b = None \<and> \<not> rd st1 < wr st1"
        let ?st2 = "(update_labels NX NY st1)\<lparr>wr := 0, rd := 0\<rparr>"
        have ti2: "tree_inv NX NY r ?st2" using ti1 by (rule tree_inv_update_labels)
        have j2: "J ?st2" using ti1 j1 n by (intro J_update) simp_all
        have "\<exists>c st3. slack_scan NX NY val 0 ?st2 = Inr (c, st3) \<and> tree_inv NX NY r st3 \<and>
           ((c = None \<and> J st3) \<or>
            (\<exists>y'. c = Some (slackx st3 y', y') \<and> J st3 \<and> exposed NY st3 (slackx st3 y') y' \<and>
                  eq (slack st3 y') (Fin 0)))"
          by (rule slack_scan_inv [where J = "\<lambda>y. J", OF ti2 j2 _ NY0 _ J_slack]) simp_all
        then obtain c st3 where
          c: "slack_scan NX NY val 0 ?st2 = Inr (c, st3)" and ti3: "tree_inv NX NY r st3"
          and cc: "(c = None \<and> J st3) \<or>
            (\<exists>y'. c = Some (slackx st3 y', y') \<and> J st3 \<and> exposed NY st3 (slackx st3 y') y' \<and>
                  eq (slack st3 y') (Fin 0))"
          by blast
        from cc show ?thesis
        proof
          assume "c = None \<and> J st3"
          with step.hyps b n c eqs have "f NX NY val st3 = Some res" by simp
          from step.IH [OF this] ti3 \<open>c = None \<and> J st3\<close> show ?thesis by simp
        next
          assume "\<exists>y'. c = Some (slackx st3 y', y') \<and> J st3 \<and> exposed NY st3 (slackx st3 y') y' \<and>
                  eq (slack st3 y') (Fin 0)"
          then obtain y' where "c = Some (slackx st3 y', y')" "J st3"
            "exposed NY st3 (slackx st3 y') y'" "eq (slack st3 y') (Fin 0)" by blast
          with step.hyps b n c eqs ti3 show ?thesis
            by (auto simp: found_edge_def)
        qed
      qed
    qed
  qed
  from this [OF run] inv show ?thesis by simp
qed


definition aug_pre ::
  "int \<Rightarrow> int \<Rightarrow> int \<Rightarrow> (int \<Rightarrow> nat) \<Rightarrow> int \<Rightarrow> int \<Rightarrow> kstate \<Rightarrow> bool" where
  "aug_pre NX NY r rank cx cy st \<longleftrightarrow>
     in_range NY cy \<and> S st cx \<and>
     (\<forall>x. S st x \<longrightarrow> in_range NX x) \<and>
     S st r \<and> prev st r = - 2 \<and> xy st r = - 1 \<and>
     (\<forall>x. S st x \<and> x \<noteq> r \<longrightarrow> S st (prev st x) \<and> rank (prev st x) < rank x) \<and>
     (\<forall>x. S st x \<and> x \<noteq> r \<and> rank x \<le> rank cx \<longrightarrow> xy st x \<noteq> - 1) \<and>
     (\<forall>x. in_range NX x \<longrightarrow> xy st x = - 1 \<or> (in_range NY (xy st x) \<and> yx st (xy st x) = x)) \<and>
     (\<forall>y. in_range NY y \<and> y \<noteq> cy \<longrightarrow>
          yx st y = - 1 \<or> (in_range NX (yx st y) \<and> xy st (yx st y) = y)) \<and>
     (\<forall>x. in_range NX x \<longrightarrow> xy st x \<noteq> cy)"

definition aug_post ::
  "int \<Rightarrow> int \<Rightarrow> int \<Rightarrow> (int \<Rightarrow> nat) \<Rightarrow> int \<Rightarrow> int \<Rightarrow> kstate \<Rightarrow> kstate \<Rightarrow> bool" where
  "aug_post NX NY r rank cx cy st st' \<longleftrightarrow>
     match_inv NX NY st' \<and>
     st' = st\<lparr>xy := xy st', yx := yx st'\<rparr> \<and>
     (\<forall>x. in_range NX x \<longrightarrow> (xy st' x \<noteq> - 1 \<longleftrightarrow> xy st x \<noteq> - 1 \<or> x = r)) \<and>
     (\<forall>x. in_range NX x \<and> xy st' x \<noteq> xy st x \<longrightarrow>
          (x = cx \<and> xy st' x = cy) \<or>
          (\<exists>z. S st z \<and> z \<noteq> r \<and> rank z \<le> rank cx \<and> prev st z = x \<and> xy st z = xy st' x))"

lemma augment_stop: "augment NX NY (- 2) cy st = Some (Inr st)"
  by (subst augment.simps) simp

lemma augment_step:
  "cx \<noteq> - 2 \<Longrightarrow> in_range NX cx \<Longrightarrow> in_range NY cy \<Longrightarrow>
   augment NX NY cx cy st =
     augment NX NY (prev st cx) (xy st cx) (st\<lparr>yx := (yx st)(cy := cx), xy := (xy st)(cx := cy)\<rparr>)"
  by (subst augment.simps) simp

lemma augment_correct:
  assumes "aug_pre NX NY r rank cx cy st"
  shows "\<exists>st'. augment NX NY cx cy st = Some (Inr st') \<and> aug_post NX NY r rank cx cy st st'"
  using assms
proof (induction "rank cx" arbitrary: cx cy st rule: less_induct)
  case less
  let ?st1 = "st\<lparr>yx := (yx st)(cy := cx), xy := (xy st)(cx := cy)\<rparr>"
  from less.prems have cy: "in_range NY cy" and cxS: "S st cx"
    and Sr: "\<forall>x. S st x \<longrightarrow> in_range NX x"
    and r: "S st r" "prev st r = - 2" "xy st r = - 1"
    and tr: "\<forall>x. S st x \<and> x \<noteq> r \<longrightarrow> S st (prev st x) \<and> rank (prev st x) < rank x"
    and ma: "\<forall>x. S st x \<and> x \<noteq> r \<and> rank x \<le> rank cx \<longrightarrow> xy st x \<noteq> - 1"
    and m1: "\<forall>x. in_range NX x \<longrightarrow> xy st x = - 1 \<or> (in_range NY (xy st x) \<and> yx st (xy st x) = x)"
    and m2: "\<forall>y. in_range NY y \<and> y \<noteq> cy \<longrightarrow>
          yx st y = - 1 \<or> (in_range NX (yx st y) \<and> xy st (yx st y) = y)"
    and fr: "\<forall>x. in_range NX x \<longrightarrow> xy st x \<noteq> cy"
    by (simp_all add: aug_pre_def)
  from Sr cxS have cxr: "in_range NX cx" by simp
  then have cx2: "cx \<noteq> - 2" by (auto simp: in_range_def)
  have unf: "augment NX NY cx cy st = augment NX NY (prev st cx) (xy st cx) ?st1"
    using cx2 cxr cy by (rule augment_step)
  have cy1: "cy \<noteq> - 1" using cy by (auto simp: in_range_def)
  have m1': "\<forall>x. in_range NX x \<longrightarrow>
      xy ?st1 x = - 1 \<or> (in_range NY (xy ?st1 x) \<and> yx ?st1 (xy ?st1 x) = x)"
    using m1 fr cy by auto
  show ?case
  proof (cases "cx = r")
    case True
    have "match_inv NX NY ?st1"
      unfolding match_inv_def
    proof (intro conjI allI impI)
      fix x assume "in_range NX x"
      with m1' show "xy ?st1 x = - 1 \<or> (in_range NY (xy ?st1 x) \<and> yx ?st1 (xy ?st1 x) = x)"
        by blast
    next
      fix y assume y: "in_range NY y"
      show "yx ?st1 y = - 1 \<or> (in_range NX (yx ?st1 y) \<and> xy ?st1 (yx ?st1 y) = y)"
      proof (cases "y = cy")
        case True
        with cxr show ?thesis by simp
      next
        case False
        with m2 y have "yx st y = - 1 \<or> (in_range NX (yx st y) \<and> xy st (yx st y) = y)" by simp
        moreover have "yx st y \<noteq> cx" if "xy st (yx st y) = y"
          using that True r(3) y by (auto simp: in_range_def)
        ultimately show ?thesis using False by auto
      qed
    qed
    moreover have "augment NX NY cx cy st = Some (Inr ?st1)"
      using unf True r(2) by (simp add: augment_stop)
    moreover have "\<forall>x. in_range NX x \<longrightarrow> (xy ?st1 x \<noteq> - 1 \<longleftrightarrow> xy st x \<noteq> - 1 \<or> x = r)"
      using True r(3) cy1 by auto
    ultimately show ?thesis
      unfolding aug_post_def using True by auto
  next
    case False
    let ?cx = "prev st cx" and ?cy = "xy st cx"
    from tr cxS False have pS: "S st ?cx" and rk: "rank ?cx < rank cx" by simp_all
    from ma cxS False have cym: "?cy \<noteq> - 1" by simp
    with m1 cxr have cyr: "in_range NY ?cy" and ybk: "yx st ?cy = cx" by auto
    have cyne: "?cy \<noteq> cy" using fr cxr by auto
    have pne: "?cx \<noteq> cx" using rk by auto
    have pre: "aug_pre NX NY r rank ?cx ?cy ?st1"
      unfolding aug_pre_def
    proof (intro conjI)
      show "in_range NY ?cy" by (rule cyr)
      show "S ?st1 ?cx" using pS by simp
      show "\<forall>x. S ?st1 x \<longrightarrow> in_range NX x" using Sr by simp
      show "S ?st1 r" "prev ?st1 r = - 2" using r by simp_all
      show "xy ?st1 r = - 1" using r False by simp
      show "\<forall>x. S ?st1 x \<and> x \<noteq> r \<longrightarrow> S ?st1 (prev ?st1 x) \<and> rank (prev ?st1 x) < rank x"
        using tr by simp
      show "\<forall>x. S ?st1 x \<and> x \<noteq> r \<and> rank x \<le> rank ?cx \<longrightarrow> xy ?st1 x \<noteq> - 1"
        using ma rk by auto
      show "\<forall>x. in_range NX x \<longrightarrow>
          xy ?st1 x = - 1 \<or> (in_range NY (xy ?st1 x) \<and> yx ?st1 (xy ?st1 x) = x)"
        by (rule m1')
      show "\<forall>y. in_range NY y \<and> y \<noteq> ?cy \<longrightarrow>
          yx ?st1 y = - 1 \<or> (in_range NX (yx ?st1 y) \<and> xy ?st1 (yx ?st1 y) = y)"
      proof (intro allI impI)
        fix y assume y: "in_range NY y \<and> y \<noteq> ?cy"
        show "yx ?st1 y = - 1 \<or> (in_range NX (yx ?st1 y) \<and> xy ?st1 (yx ?st1 y) = y)"
        proof (cases "y = cy")
          case True
          with cxr show ?thesis by simp
        next
          case ne: False
          with m2 y have "yx st y = - 1 \<or> (in_range NX (yx st y) \<and> xy st (yx st y) = y)"
            by simp
          moreover have "yx st y \<noteq> cx" if "xy st (yx st y) = y"
            using that y by auto
          ultimately show ?thesis using ne by auto
        qed
      qed
      show "\<forall>x. in_range NX x \<longrightarrow> xy ?st1 x \<noteq> ?cy"
      proof (intro allI impI)
        fix x assume x: "in_range NX x"
        show "xy ?st1 x \<noteq> ?cy"
        proof (cases "x = cx")
          case True
          with cyne show ?thesis by simp
        next
          case ne: False
          show ?thesis
          proof
            assume "xy ?st1 x = ?cy"
            with ne have e: "xy st x = ?cy" by simp
            with m1 x cym have "yx st (xy st x) = x" by auto
            with e ybk ne show False by simp
          qed
        qed
      qed
    qed
    from less.hyps [OF rk pre] obtain st' where
      run: "augment NX NY ?cx ?cy ?st1 = Some (Inr st')"
      and post: "aug_post NX NY r rank ?cx ?cy ?st1 st'"
      by blast
    from post have p1: "match_inv NX NY st'" and p2: "st' = ?st1\<lparr>xy := xy st', yx := yx st'\<rparr>"
      and p3: "\<forall>x. in_range NX x \<longrightarrow> (xy st' x \<noteq> - 1 \<longleftrightarrow> xy ?st1 x \<noteq> - 1 \<or> x = r)"
      and p4: "\<forall>x. in_range NX x \<and> xy st' x \<noteq> xy ?st1 x \<longrightarrow>
          (x = ?cx \<and> xy st' x = ?cy) \<or>
          (\<exists>z. S ?st1 z \<and> z \<noteq> r \<and> rank z \<le> rank ?cx \<and> prev ?st1 z = x \<and> xy ?st1 z = xy st' x)"
      by (simp_all add: aug_post_def)
    have q2: "st' = st\<lparr>xy := xy st', yx := yx st'\<rparr>"
      by (subst p2) simp
    have q3: "\<forall>x. in_range NX x \<longrightarrow> (xy st' x \<noteq> - 1 \<longleftrightarrow> xy st x \<noteq> - 1 \<or> x = r)"
    proof (intro allI impI)
      fix x assume x: "in_range NX x"
      show "xy st' x \<noteq> - 1 \<longleftrightarrow> xy st x \<noteq> - 1 \<or> x = r"
      proof (cases "x = cx")
        case True
        with p3 x cy1 cym show ?thesis by simp
      next
        case ne: False
        with p3 x show ?thesis by simp
      qed
    qed
    have q4: "\<forall>x. in_range NX x \<and> xy st' x \<noteq> xy st x \<longrightarrow>
          (x = cx \<and> xy st' x = cy) \<or>
          (\<exists>z. S st z \<and> z \<noteq> r \<and> rank z \<le> rank cx \<and> prev st z = x \<and> xy st z = xy st' x)"
    proof (intro allI impI)
      fix x assume x: "in_range NX x \<and> xy st' x \<noteq> xy st x"
      show "(x = cx \<and> xy st' x = cy) \<or>
          (\<exists>z. S st z \<and> z \<noteq> r \<and> rank z \<le> rank cx \<and> prev st z = x \<and> xy st z = xy st' x)"
      proof (cases "xy st' x = xy ?st1 x")
        case True
        with x have "x = cx" by (auto split: if_splits)
        with True show ?thesis by simp
      next
        case ne: False
        with p4 x consider (a) "x = ?cx" "xy st' x = ?cy"
          | (b) z where "S ?st1 z" "z \<noteq> r" "rank z \<le> rank ?cx" "prev ?st1 z = x" "xy ?st1 z = xy st' x"
          by blast
        then show ?thesis
        proof cases
          case a
          with cxS False show ?thesis by auto
        next
          case b
          then have "z \<noteq> cx" using rk by auto
          with b rk show ?thesis by (intro disjI2 exI [of _ z]) simp
        qed
      qed
    qed
    from run unf p1 q2 q3 q4 show ?thesis
      unfolding aug_post_def by auto
  qed
qed


lemma init_phase_tree:
  assumes m: "match_inv NX NY st" and i: "init_phase NX NY val st = Inr st1"
  shows "\<exists>r. in_range NX r \<and> xy st r = - 1 \<and> snd (find_root NX st) = Some r \<and>
     tree_inv NX NY r st1"
proof -
  from i obtain r where fr: "snd (find_root NX st) = Some r"
    by (cases "snd (find_root NX st)") (simp_all add: init_phase_none)
  with find_root_cases [of NX st] have r: "in_range NX r" "xy st r = - 1" by auto
  from i have st1: "st1 = st\<lparr>S := (\<lambda>_. False)(r := True), T := (\<lambda>_. False),
             prev := (\<lambda>_. - 1)(r := - 2), q := (q st)(0 := r), wr := 1, rd := 0,
             slack := (\<lambda>y. if in_range NY y then dsub (dadd (lx st r) (ly st y)) (val r y)
                            else slack st y),
             slackx := (\<lambda>y. if in_range NY y then r else slackx st y)\<rparr>"
    by (simp add: init_phase_eq [OF fr])
  have f: "S st1 = (\<lambda>_. False)(r := True)" "T st1 = (\<lambda>_. False)" "prev st1 = (\<lambda>_. - 1)(r := - 2)"
    "q st1 0 = r" "wr st1 = 1" "rd st1 = 0" "xy st1 = xy st" "yx st1 = yx st"
    "\<forall>y. in_range NY y \<longrightarrow> slackx st1 y = r"
    by (simp_all add: st1)
  have c: "{x. S st1 x} = {r}" by (auto simp: f)
  have "tree_ranked r (\<lambda>_. 0) st1" by (simp add: tree_ranked_def f)
  then have 1: "\<exists>rk. tree_ranked r rk st1" by blast
  have 2: "match_inv NX NY st1" using m by (simp add: match_inv_def f)
  have 3: "0 \<le> wr st1 \<and> wr st1 \<le> int (card {x. S st1 x})" unfolding c by (simp add: f)
  have 4: "in_range NX r \<and> xy st1 r = - 1 \<and> S st1 r \<and> prev st1 r = - 2"
    using r by (simp add: f)
  have 5: "\<forall>x. S st1 x \<longrightarrow> in_range NX x" using r by (simp add: f)
  have 6: "\<forall>y. T st1 y \<longrightarrow> in_range NY y \<and> yx st1 y \<noteq> - 1 \<and> S st1 (yx st1 y)"
    by (simp add: f)
  have 7: "\<forall>y. in_range NY y \<longrightarrow> S st1 (slackx st1 y)" by (simp add: f)
  have 8: "\<forall>i. rd st1 \<le> i \<and> i < wr st1 \<longrightarrow> S st1 (q st1 i)"
  proof (intro allI impI)
    fix i assume "rd st1 \<le> i \<and> i < wr st1"
    then have "i = 0" by (simp add: f)
    then show "S st1 (q st1 i)" by (simp add: f)
  qed
  have "tree_inv NX NY r st1"
    unfolding tree_inv_def using 1 2 3 4 5 6 7 8 by blast
  with r fr show ?thesis by blast
qed

lemma tree_inv_aug_pre:
  assumes ti: "tree_inv NX NY r st" and rk: "tree_ranked r rank st" and e: "exposed NY st x y"
  shows "aug_pre NX NY r rank x y st"
proof -
  from ti have m: "match_inv NX NY st" by (simp add: tree_inv_def)
  from e have y: "in_range NY y" "yx st y = - 1" "S st x" by (simp_all add: exposed_def)
  have "xy st x' \<noteq> y" if "in_range NX x'" for x'
  proof
    assume "xy st x' = y"
    with m that y(1) have "yx st y = x'" by (auto simp: match_inv_def in_range_def)
    with y(2) that show False by (simp add: in_range_def)
  qed
  then show ?thesis
    using ti rk y unfolding aug_pre_def tree_inv_def match_inv_def tree_ranked_def by auto
qed

lemma phase_partial:
  assumes m: "match_inv NX NY st" and NY0: "0 \<le> NY"
    and ip: "init_phase NX NY val st = Inr st1"
    and mc: "main_cycle NX NY val st1 = Some res"
    and J0: "\<And>r. in_range NX r \<Longrightarrow> xy st r = - 1 \<Longrightarrow> snd (find_root NX st) = Some r \<Longrightarrow>
        tree_inv NX NY r st1 \<Longrightarrow> J r st1"
    and J_rd: "\<And>r st. tree_inv NX NY r st \<Longrightarrow> J r st \<Longrightarrow> rd st < wr st \<Longrightarrow>
        J r (st\<lparr>rd := rd st + 1\<rparr>)"
    and J_bfs: "\<And>r st x0 y. tree_inv NX NY r st \<Longrightarrow> J r st \<Longrightarrow> S st x0 \<Longrightarrow> in_range NY y \<Longrightarrow>
        \<not> T st y \<Longrightarrow> yx st y \<noteq> - 1 \<Longrightarrow> eq (val x0 y) (dadd (lx st x0) (ly st y)) \<Longrightarrow>
        J r (add_to_tree NY val (yx st y) x0
            (st\<lparr>T := (T st)(y := True), q := (q st)(wr st := yx st y), wr := wr st + 1\<rparr>))"
    and J_update: "\<And>r st. tree_inv NX NY r st \<Longrightarrow> J r st \<Longrightarrow> \<not> rd st < wr st \<Longrightarrow>
        J r ((update_labels NX NY st)\<lparr>wr := 0, rd := 0\<rparr>)"
    and J_slack: "\<And>r st y. tree_inv NX NY r st \<Longrightarrow> J r st \<Longrightarrow> in_range NY y \<Longrightarrow>
        \<not> T st y \<Longrightarrow> yx st y \<noteq> - 1 \<Longrightarrow> eq (slack st y) (Fin 0) \<Longrightarrow>
        J r (add_to_tree NY val (yx st y) (slackx st y)
            (st\<lparr>T := (T st)(y := True), q := (q st)(wr st := yx st y), wr := wr st + 1\<rparr>))"
  shows "\<exists>r rank x y st2 st3. res = Inr (x, y, st2) \<and> in_range NX r \<and> xy st r = - 1 \<and>
      tree_inv NX NY r st2 \<and> J r st2 \<and> exposed NY st2 x y \<and> found_edge val st2 x y \<and>
      tree_ranked r rank st2 \<and>
      augment NX NY x y st2 = Some (Inr st3) \<and> aug_post NX NY r rank x y st2 st3"
proof -
  from init_phase_tree [OF m ip] obtain r where
    r: "in_range NX r" "xy st r = - 1" "snd (find_root NX st) = Some r"
    and ti: "tree_inv NX NY r st1"
    by blast
  have j: "J r st1" using r ti by (rule J0)
  have "\<exists>x y st'. res = Inr (x, y, st') \<and> tree_inv NX NY r st' \<and> J r st' \<and>
           exposed NY st' x y \<and> found_edge val st' x y"
    by (rule main_cycle_partial [where J = "J r", OF mc ti j NY0 J_rd J_bfs J_update J_slack])
  then obtain x y st2 where
    res: "res = Inr (x, y, st2)" and ti2: "tree_inv NX NY r st2" and j2: "J r st2"
    and e: "exposed NY st2 x y" and fe: "found_edge val st2 x y"
    by blast
  from ti2 obtain rank where rk: "tree_ranked r rank st2" by (auto simp: tree_inv_def)
  from augment_correct [OF tree_inv_aug_pre [OF ti2 rk e]] obtain st3 where
    "augment NX NY x y st2 = Some (Inr st3)" "aug_post NX NY r rank x y st2 st3"
    by blast
  with res r ti2 j2 e fe rk show ?thesis by blast
qed

lemma outer_loop_partial:
  assumes run: "outer_loop NX NY val n st = Some res"
    and inv: "match_inv NX NY st" "I n st"
    and phase: "\<And>n st st1 mres. match_inv NX NY st \<Longrightarrow> I n st \<Longrightarrow> n < min NX NY \<Longrightarrow>
        init_phase NX NY val st = Inr st1 \<Longrightarrow> main_cycle NX NY val st1 = Some mres \<Longrightarrow>
        \<exists>x y st2 st3. mres = Inr (x, y, st2) \<and> augment NX NY x y st2 = Some (Inr st3) \<and>
           match_inv NX NY st3 \<and> I (n + 1) st3"
  shows "res = Inl Uninitialized \<or>
     (\<exists>n' st'. res = Inr (n', st') \<and> match_inv NX NY st' \<and> I n' st' \<and> \<not> n' < min NX NY \<and> n \<le> n')"
proof -
  let ?C = "\<lambda>n res. res = Inl Uninitialized \<or>
     (\<exists>n' st'. res = Inr (n', st') \<and> match_inv NX NY st' \<and> I n' st' \<and> \<not> n' < min NX NY \<and> n \<le> n')"
  have "NX' = NX \<longrightarrow> NY' = NY \<longrightarrow> val' = val \<longrightarrow> match_inv NX NY st \<longrightarrow> I n st \<longrightarrow> ?C n res"
    if "outer_loop NX' NY' val' n st = Some res" for NX' NY' val'
    using that
  proof (induction rule: outer_loop.raw_induct [rotated, consumes 1, case_names step])
    case (step f NX' NY' val' n st res)
    show ?case
    proof (intro impI)
      assume eqs: "NX' = NX" "NY' = NY" "val' = val" and m: "match_inv NX NY st" and i: "I n st"
      show "?C n res"
      proof (cases "n < min NX NY")
        case False
        with step.hyps eqs have "res = Inr (n, st)" by (auto split: if_splits)
        with False m i show ?thesis by blast
      next
        case True
        show ?thesis
        proof (cases "init_phase NX NY val st")
          case (Inl e)
          then have "e = Uninitialized"
            by (cases "snd (find_root NX st)") (simp_all add: init_phase_def)
          with step.hyps eqs True Inl show ?thesis by simp
        next
          case (Inr st1)
          show ?thesis
          proof (cases "main_cycle NX NY val st1")
            case None
            with step.hyps eqs True Inr show ?thesis by simp
          next
            case (Some mres)
            from phase [OF m i True Inr Some] obtain x y st2 st3 where
              a: "mres = Inr (x, y, st2)" "augment NX NY x y st2 = Some (Inr st3)"
              "match_inv NX NY st3" "I (n + 1) st3"
              by blast
            with step.hyps eqs True Inr Some have "f NX NY val (n + 1) st3 = Some res"
              by simp
            from step.IH [OF this] a(3,4) have "?C (n + 1) res" by simp
            then show ?thesis by auto
          qed
        qed
      qed
    qed
  qed
  from this [OF run] inv show ?thesis by simp
qed

lemma match_inv_init: "match_inv NX NY (init_state NX NY val)"
  by (simp add: match_inv_def init_state_def)

lemma hungarian_matching:
  assumes "hungarian NX NY val = Some (Inr (n, st))" and "0 \<le> NY"
  shows "match_inv NX NY st"
proof -
  have run: "outer_loop NX NY val 0 (init_state NX NY val) = Some (Inr (n, st))"
    using assms(1) by (simp add: hungarian_def)
  have phase: "\<exists>x y st2 st3. mres = Inr (x, y, st2) \<and> augment NX NY x y st2 = Some (Inr st3) \<and>
           match_inv NX NY st3 \<and> True"
    if m: "match_inv NX NY st" and ip: "init_phase NX NY val st = Inr st1"
      and mc: "main_cycle NX NY val st1 = Some mres" for n :: int and st st1 mres
  proof -
    have "\<exists>r rank x y st2 st3. mres = Inr (x, y, st2) \<and> in_range NX r \<and> xy st r = - 1 \<and>
      tree_inv NX NY r st2 \<and> True \<and> exposed NY st2 x y \<and> found_edge val st2 x y \<and>
      tree_ranked r rank st2 \<and>
      augment NX NY x y st2 = Some (Inr st3) \<and> aug_post NX NY r rank x y st2 st3"
      by (rule phase_partial [where J = "\<lambda>_ _. True", OF m assms(2) ip mc]) simp_all
    then show ?thesis
      by (auto simp: aug_post_def)
  qed
  from outer_loop_partial [where I = "\<lambda>_ _. True", OF run match_inv_init TrueI phase]
  show ?thesis by simp
qed

lemma fold_max_ge:
  fixes f :: "'a \<Rightarrow> int"
  shows "m \<le> fold (\<lambda>a m. max m (f a)) xs m \<and> (\<forall>a \<in> set xs. f a \<le> fold (\<lambda>a m. max m (f a)) xs m)"
proof (induction xs arbitrary: m)
  case Nil
  show ?case by simp
next
  case (Cons x xs)
  from Cons [of "max m (f x)"] show ?case by auto
qed

lemma max_character_ge: "a \<in> set xs \<Longrightarrow> character a \<le> max_character xs"
  using fold_max_ge [of 0 character xs] by (simp add: max_character_def)

lemma max_task_ge: "a \<in> set xs \<Longrightarrow> task a \<le> max_task xs"
  using fold_max_ge [of 0 task xs] by (simp add: max_task_def)

lemma max_character_nonneg: "0 \<le> max_character xs"
  using fold_max_ge [of 0 character xs] by (simp add: max_character_def)

lemma max_task_nonneg: "0 \<le> max_task xs"
  using fold_max_ge [of 0 task xs] by (simp add: max_task_def)

text \<open>The result of Optimize in terms of the final matching.\<close>

lemma Optimize_result:
  assumes "Optimize xs = Some (Inr out)"
  shows "(\<forall>a \<in> set xs. 0 \<le> character a \<and> 0 \<le> task a) \<and>
     ((max_character xs < max_task xs \<and>
        (\<exists>n st. hungarian (max_character xs + 1) (max_task xs + 1) (value_by_character xs)
                  = Some (Inr (n, st)) \<and>
           mset out = filter_mset (\<lambda>a. task a = xy st (character a)) (mset xs)))
      \<or> (\<not> max_character xs < max_task xs \<and>
        (\<exists>n st. hungarian (max_task xs + 1) (max_character xs + 1) (value_by_task xs)
                  = Some (Inr (n, st)) \<and>
           mset out = filter_mset (\<lambda>a. task a = yx st (character a)) (mset xs))))"
proof -
  from assms have ids: "\<forall>a \<in> set xs. 0 \<le> character a \<and> 0 \<le> task a"
    by (auto simp: Optimize_def split: if_splits)
  show ?thesis
  proof (cases "max_character xs < max_task xs")
    case True
    with assms ids obtain n st where
      h: "hungarian (max_character xs + 1) (max_task xs + 1) (value_by_character xs)
            = Some (Inr (n, st))"
      and o: "out = filter_loop (\<lambda>a. task a \<noteq> xy st (character a)) xs 0"
      by (auto simp: Optimize_def split: if_splits option.splits sum.splits)
    from o have "mset out = filter_mset (\<lambda>a. task a = xy st (character a)) (mset xs)"
      by (simp add: mset_filter_loop)
    with h True ids show ?thesis by blast
  next
    case False
    with assms ids obtain n st where
      h: "hungarian (max_task xs + 1) (max_character xs + 1) (value_by_task xs)
            = Some (Inr (n, st))"
      and o: "out = filter_loop (\<lambda>a. task a \<noteq> yx st (character a)) xs 0"
      by (auto simp: Optimize_def split: if_splits option.splits sum.splits)
    from o have "mset out = filter_mset (\<lambda>a. task a = yx st (character a)) (mset xs)"
      by (simp add: mset_filter_loop)
    with h False ids show ?thesis by blast
  qed
qed


lemma distinct_count_le1: "distinct ys \<longleftrightarrow> (\<forall>b. count (mset ys) b \<le> 1)"
proof (induction ys)
  case Nil
  show ?case by simp
next
  case (Cons x ys)
  have "x \<notin> set ys \<longleftrightarrow> count (mset ys) x = 0"
    by (simp add: count_eq_zero_iff)
  with Cons show ?case
    by (auto simp: le_Suc_eq dest: spec [of _ x])
qed

lemma distinct_map_filter_sub:
  assumes "distinct (map f xs)" and "mset out \<subseteq># mset xs"
  shows "distinct (map f out)"
proof -
  have "image_mset f (mset out) \<subseteq># image_mset f (mset xs)"
    using assms(2) by (rule image_mset_subseteq_mono)
  then have "mset (map f out) \<subseteq># mset (map f xs)" by simp
  then have "count (mset (map f out)) b \<le> count (mset (map f xs)) b" for b
    by (rule mset_subset_eq_count)
  moreover have "count (mset (map f xs)) b \<le> 1" for b
    using assms(1) distinct_count_le1 [of "map f xs"] by blast
  ultimately have "\<forall>b. count (mset (map f out)) b \<le> 1"
    by (meson order_trans)
  then show ?thesis using distinct_count_le1 [of "map f out"] by blast
qed

section \<open>Matched pairs have finite values\<close>

text \<open>A pair enters the tree or the matching only after a comparison within the tolerance
  has succeeded, which it does for finite numbers only.\<close>

fun is_fin :: "double \<Rightarrow> bool" where
  "is_fin (Fin a) = True"
| "is_fin _ = False"











lemma fold_matrix:
  fixes k1 k2 :: "'a \<Rightarrow> int" and g :: "'a \<Rightarrow> double"
  shows "(\<not> (\<exists>a \<in> set xs. k1 a = c \<and> k2 a = t) \<and>
       fold (\<lambda>a v. v(k1 a := (v (k1 a))(k2 a := g a))) xs v0 c t = v0 c t)
     \<or> (\<exists>a \<in> set xs. k1 a = c \<and> k2 a = t \<and>
       fold (\<lambda>a v. v(k1 a := (v (k1 a))(k2 a := g a))) xs v0 c t = g a)"
proof (induction xs arbitrary: v0)
  case Nil
  show ?case by simp
next
  case (Cons x xs)
  let ?f = "\<lambda>a v. v(k1 a := (v (k1 a))(k2 a := g a))"
  let ?v1 = "v0(k1 x := (v0 (k1 x))(k2 x := g x))"
  have unf: "fold ?f (x # xs) v0 = fold ?f xs ?v1" by simp
  from Cons [of ?v1] consider
    (none) "\<not> (\<exists>a \<in> set xs. k1 a = c \<and> k2 a = t)" "fold ?f xs ?v1 c t = ?v1 c t"
    | (some) a where "a \<in> set xs" "k1 a = c" "k2 a = t" "fold ?f xs ?v1 c t = g a"
    by blast
  then show ?case
  proof cases
    case none
    show ?thesis
    proof (cases "k1 x = c \<and> k2 x = t")
      case True
      then have "?v1 c t = g x" by auto
      with none True have "x \<in> set (x # xs) \<and> k1 x = c \<and> k2 x = t \<and> fold ?f (x # xs) v0 c t = g x"
        unfolding unf by simp
      then show ?thesis by blast
    next
      case False
      then have "?v1 c t = v0 c t" by auto
      with none False have "\<not> (\<exists>a \<in> set (x # xs). k1 a = c \<and> k2 a = t) \<and>
          fold ?f (x # xs) v0 c t = v0 c t"
        unfolding unf by auto
      then show ?thesis by blast
    qed
  next
    case some
    then have "a \<in> set (x # xs) \<and> k1 a = c \<and> k2 a = t \<and> fold ?f (x # xs) v0 c t = g a"
      unfolding unf by simp
    then show ?thesis by blast
  qed
qed

lemma value_by_character_entry:
  "(\<not> (\<exists>a \<in> set xs. character a = c \<and> task a = t) \<and> value_by_character xs c t = Fin 1)
   \<or> (\<exists>a \<in> set xs. character a = c \<and> task a = t \<and>
        value_by_character xs c t = dadd (dsub (max_cost xs) (cost a)) (Fin 1))"
  unfolding value_by_character_def
  using fold_matrix [of xs character c task t "\<lambda>a. dadd (dsub (max_cost xs) (cost a)) (Fin 1)"
      "\<lambda>x y. Fin 1"]
  by simp

lemma value_by_task_entry:
  "(\<not> (\<exists>a \<in> set xs. character a = c \<and> task a = t) \<and> value_by_task xs t c = Fin 1)
   \<or> (\<exists>a \<in> set xs. character a = c \<and> task a = t \<and>
        value_by_task xs t c = dadd (dsub (max_cost xs) (cost a)) (Fin 1))"
  unfolding value_by_task_def
  using fold_matrix [of xs task t character c "\<lambda>a. dadd (dsub (max_cost xs) (cost a)) (Fin 1)"
      "\<lambda>x y. Fin 1"]
  by auto




section \<open>Finite costs: labels, slacks and the end of each loop\<close>

text \<open>With finite costs every number that \<^verbatim>\<open>Optimize\<close> computes is finite. The labels stay
  feasible (\<open>lx x + ly y\<close> is never below \<open>value x y\<close>), a free column has label 0, and
  inside a phase \<^verbatim>\<open>slack[y]\<close> of a column outside the tree is non-negative and bounds the
  slack of every tree row. Each pass of the main cycle that does not find a path puts a new
  column into the tree, so the cycle ends.\<close>

fun real_of :: "double \<Rightarrow> real" where
  "real_of (Fin a) = a"
| "real_of _ = 0"

lemma is_fin_eq: "is_fin a \<Longrightarrow> a = Fin (real_of a)"
  by (cases a) simp_all

lemma DBL_MAX_pos: "0 < DBL_MAX"
  by (simp add: DBL_MAX_def)

lemma DBL_MIN_less_1: "DBL_MIN < 1"
  by (simp add: DBL_MIN_def)

lemma eq_zero: "eq (Fin 0) (Fin 0)"
  by (simp add: eq_def dsub_def)

definition val_ok :: "int \<Rightarrow> int \<Rightarrow> (int \<Rightarrow> int \<Rightarrow> double) \<Rightarrow> real \<Rightarrow> bool" where
  "val_ok NX NY val M \<longleftrightarrow>
     (\<forall>x y. in_range NX x \<and> in_range NY y \<longrightarrow>
        is_fin (val x y) \<and> 1 \<le> real_of (val x y) \<and> real_of (val x y) \<le> M + 1)"

definition feasible :: "int \<Rightarrow> int \<Rightarrow> (int \<Rightarrow> int \<Rightarrow> double) \<Rightarrow> real \<Rightarrow> kstate \<Rightarrow> bool" where
  "feasible NX NY val M st \<longleftrightarrow>
     (\<forall>x. in_range NX x \<longrightarrow> is_fin (lx st x) \<and> real_of (lx st x) \<le> M + 1) \<and>
     (\<forall>y. in_range NY y \<longrightarrow> is_fin (ly st y) \<and> 0 \<le> real_of (ly st y)) \<and>
     (\<forall>x y. in_range NX x \<and> in_range NY y \<longrightarrow>
        real_of (val x y) \<le> real_of (lx st x) + real_of (ly st y)) \<and>
     (\<forall>y. in_range NY y \<and> yx st y = - 1 \<longrightarrow> real_of (ly st y) = 0)"

definition slack_ok :: "int \<Rightarrow> (int \<Rightarrow> int \<Rightarrow> double) \<Rightarrow> kstate \<Rightarrow> bool" where
  "slack_ok NY val st \<longleftrightarrow>
     (\<forall>y. in_range NY y \<and> \<not> T st y \<longrightarrow> is_fin (slack st y) \<and> 0 \<le> real_of (slack st y)) \<and>
     (\<forall>x y. S st x \<and> in_range NY y \<and> \<not> T st y \<longrightarrow>
        real_of (slack st y) \<le> real_of (lx st x) + real_of (ly st y) - real_of (val x y)) \<and>
     (\<exists>y. in_range NY y \<and> yx st y = - 1)"

lemma new_slack:
  assumes v: "val_ok NX NY val M" and f: "feasible NX NY val M st"
    and x: "in_range NX x" and y: "in_range NY y"
  shows "dsub (dadd (lx st x) (ly st y)) (val x y)
       = Fin (real_of (lx st x) + real_of (ly st y) - real_of (val x y))"
    and "0 \<le> real_of (lx st x) + real_of (ly st y) - real_of (val x y)"
proof -
  from v x y have a: "is_fin (val x y)" by (simp add: val_ok_def)
  from f x have b: "is_fin (lx st x)" by (simp add: feasible_def)
  from f y have c: "is_fin (ly st y)" by (simp add: feasible_def)
  from is_fin_eq [OF a] is_fin_eq [OF b] is_fin_eq [OF c]
  show "dsub (dadd (lx st x) (ly st y)) (val x y)
       = Fin (real_of (lx st x) + real_of (ly st y) - real_of (val x y))"
    by (metis dadd.simps(1) dneg.simps(1) dsub_def diff_conv_add_uminus)
  from f x y show "0 \<le> real_of (lx st x) + real_of (ly st y) - real_of (val x y)"
    by (simp add: feasible_def)
qed

lemma feasible_add:
  "feasible NX NY val M (add_to_tree NY val x x0
      (st\<lparr>T := T', q := q', wr := w'\<rparr>)) = feasible NX NY val M st"
  by (simp add: feasible_def add_to_tree_eq)

lemma slack_ok_add:
  assumes v: "val_ok NX NY val M" and f: "feasible NX NY val M st"
    and s: "slack_ok NY val st" and x: "in_range NX x" and t: "\<not> T st y"
  shows "slack_ok NY val (add_to_tree NY val x x0
      (st\<lparr>T := (T st)(y := True), q := q', wr := w'\<rparr>))"
proof -
  let ?st = "add_to_tree NY val x x0 (st\<lparr>T := (T st)(y := True), q := q', wr := w'\<rparr>)"
  let ?new = "\<lambda>y'. real_of (lx st x) + real_of (ly st y') - real_of (val x y')"
  have sl: "slack ?st y' = (if dless (Fin (?new y')) (slack st y') then Fin (?new y') else slack st y')"
    if "in_range NY y'" for y'
    using that new_slack(1) [OF v f x that] by (simp add: add_to_tree_eq)
  have f': "S ?st = (S st)(x := True)" "T ?st = (T st)(y := True)" "lx ?st = lx st"
    "ly ?st = ly st" "yx ?st = yx st"
    by (simp_all add: add_to_tree_eq)
  have 1: "is_fin (slack ?st y') \<and> 0 \<le> real_of (slack ?st y')"
    if "in_range NY y' \<and> \<not> T ?st y'" for y'
  proof -
    from that have yr: "in_range NY y'" and nt: "\<not> T st y'" by (simp_all add: f' split: if_splits)
    from s yr nt have "is_fin (slack st y') \<and> 0 \<le> real_of (slack st y')"
      by (simp add: slack_ok_def)
    with new_slack(2) [OF v f x yr] show ?thesis by (simp add: sl [OF yr])
  qed
  have 2: "real_of (slack ?st y') \<le> real_of (lx ?st x') + real_of (ly ?st y') - real_of (val x' y')"
    if "S ?st x' \<and> in_range NY y' \<and> \<not> T ?st y'" for x' y'
  proof -
    from that have yr: "in_range NY y'" and nt: "\<not> T st y'" and xs: "x' = x \<or> S st x'"
      by (simp_all add: f' split: if_splits)
    from s yr nt have a: "is_fin (slack st y')" by (simp add: slack_ok_def)
    from is_fin_eq [OF a] obtain k where k: "slack st y' = Fin k" by blast
    from xs show ?thesis
    proof
      assume "x' = x"
      then show ?thesis by (simp add: sl [OF yr] f' k)
    next
      assume "S st x'"
      with s yr nt have "real_of (slack st y') \<le> real_of (lx st x') + real_of (ly st y') - real_of (val x' y')"
        by (simp add: slack_ok_def)
      then show ?thesis by (simp add: sl [OF yr] f' k)
    qed
  qed
  from s have 3: "\<exists>y. in_range NY y \<and> yx ?st y = - 1" by (simp add: slack_ok_def f')
  from 1 2 3 show ?thesis unfolding slack_ok_def by blast
qed

lemma label_delta_props:
  assumes "\<forall>y. in_range NY y \<and> \<not> T st y \<longrightarrow> is_fin (slack st y) \<and> 0 \<le> real_of (slack st y)"
  shows "\<exists>d. label_delta NY st = Fin d \<and> 0 \<le> d \<and>
     (\<forall>y. in_range NY y \<and> \<not> T st y \<longrightarrow> d \<le> real_of (slack st y)) \<and>
     (d = DBL_MAX \<or> (\<exists>y. in_range NY y \<and> \<not> T st y \<and> slack st y = Fin d))"
proof -
  let ?I = "\<lambda>i delta. \<exists>d. delta = Fin d \<and> 0 \<le> d \<and>
     (\<forall>y. 0 \<le> y \<and> y < i \<and> \<not> T st y \<longrightarrow> d \<le> real_of (slack st y)) \<and>
     (d = DBL_MAX \<or> (\<exists>y. in_range NY y \<and> \<not> T st y \<and> slack st y = Fin d))"
  have "?I (max 0 NY) (label_delta NY st)"
    unfolding label_delta_def
  proof (rule for_loop_invariant)
    show "?I 0 (Fin DBL_MAX)" using DBL_MAX_pos by simp
  next
    fix i delta assume i: "0 \<le> i" "i < NY" and I: "?I i delta"
    then obtain d where d: "delta = Fin d" "0 \<le> d"
      "\<forall>y. 0 \<le> y \<and> y < i \<and> \<not> T st y \<longrightarrow> d \<le> real_of (slack st y)"
      "d = DBL_MAX \<or> (\<exists>y. in_range NY y \<and> \<not> T st y \<and> slack st y = Fin d)"
      by blast
    show "?I (i + 1) (if \<not> T st i then std_min delta (slack st i) else delta)"
    proof (cases "T st i")
      case True
      have "\<forall>y. 0 \<le> y \<and> y < i + 1 \<and> \<not> T st y \<longrightarrow> d \<le> real_of (slack st y)"
      proof (intro allI impI)
        fix y assume a: "0 \<le> y \<and> y < i + 1 \<and> \<not> T st y"
        with True have "y \<noteq> i" by auto
        with a d(3) show "d \<le> real_of (slack st y)" by simp
      qed
      with True d show ?thesis by auto
    next
      case False
      from i have ir: "in_range NY i" by (simp add: in_range_def)
      with assms False have "is_fin (slack st i)" "0 \<le> real_of (slack st i)" by simp_all
      then obtain k where k: "slack st i = Fin k" "0 \<le> k" using is_fin_eq by fastforce
      show ?thesis
      proof (cases "k < d")
        case lt: True
        have "\<forall>y. 0 \<le> y \<and> y < i + 1 \<and> \<not> T st y \<longrightarrow> k \<le> real_of (slack st y)"
        proof (intro allI impI)
          fix y assume a: "0 \<le> y \<and> y < i + 1 \<and> \<not> T st y"
          show "k \<le> real_of (slack st y)"
          proof (cases "y = i")
            case True then show ?thesis by (simp add: k)
          next
            case False
            with a d(3) have "d \<le> real_of (slack st y)" by simp
            with lt show ?thesis by simp
          qed
        qed
        moreover have "\<exists>y. in_range NY y \<and> \<not> T st y \<and> slack st y = Fin k"
          using ir False k by blast
        ultimately show ?thesis using False lt k d by (simp add: std_min_def)
      next
        case ge: False
        have "\<forall>y. 0 \<le> y \<and> y < i + 1 \<and> \<not> T st y \<longrightarrow> d \<le> real_of (slack st y)"
        proof (intro allI impI)
          fix y assume a: "0 \<le> y \<and> y < i + 1 \<and> \<not> T st y"
          show "d \<le> real_of (slack st y)"
          proof (cases "y = i")
            case True with ge show ?thesis by (simp add: k)
          next
            case False
            with a d(3) show ?thesis by simp
          qed
        qed
        then show ?thesis using False ge k d by (simp add: std_min_def)
      qed
    qed
  qed
  then show ?thesis
    by (auto simp: in_range_def max_def split: if_splits)
qed

lemma feasible_slack_update:
  assumes ti: "tree_inv NX NY r st" and v: "val_ok NX NY val M"
    and f: "feasible NX NY val M st" and s: "slack_ok NY val st"
  shows "feasible NX NY val M ((update_labels NX NY st)\<lparr>wr := 0, rd := 0\<rparr>)"
    and "slack_ok NY val ((update_labels NX NY st)\<lparr>wr := 0, rd := 0\<rparr>)"
proof -
  let ?st = "(update_labels NX NY st)\<lparr>wr := 0, rd := 0\<rparr>"
  from ti have Sr: "\<forall>x. S st x \<longrightarrow> in_range NX x"
    and Tr: "\<forall>y. T st y \<longrightarrow> in_range NY y \<and> yx st y \<noteq> - 1"
    by (simp_all add: tree_inv_def)
  from s have s1: "\<forall>y. in_range NY y \<and> \<not> T st y \<longrightarrow> is_fin (slack st y) \<and> 0 \<le> real_of (slack st y)"
    and s2: "\<forall>x y. S st x \<and> in_range NY y \<and> \<not> T st y \<longrightarrow>
        real_of (slack st y) \<le> real_of (lx st x) + real_of (ly st y) - real_of (val x y)"
    and s3: "\<exists>y. in_range NY y \<and> yx st y = - 1"
    by (simp_all add: slack_ok_def)
  from f have f1: "\<forall>x. in_range NX x \<longrightarrow> is_fin (lx st x) \<and> real_of (lx st x) \<le> M + 1"
    and f2: "\<forall>y. in_range NY y \<longrightarrow> is_fin (ly st y) \<and> 0 \<le> real_of (ly st y)"
    and f3: "\<forall>x y. in_range NX x \<and> in_range NY y \<longrightarrow>
        real_of (val x y) \<le> real_of (lx st x) + real_of (ly st y)"
    and f4: "\<forall>y. in_range NY y \<and> yx st y = - 1 \<longrightarrow> real_of (ly st y) = 0"
    by (simp_all add: feasible_def)
  from label_delta_props [OF s1] obtain d where
    d: "label_delta NY st = Fin d" "0 \<le> d"
    "\<forall>y. in_range NY y \<and> \<not> T st y \<longrightarrow> d \<le> real_of (slack st y)"
    by blast
  have lx': "lx (update_labels NX NY st) x = (if S st x then Fin (real_of (lx st x) - d) else lx st x)"
    if "in_range NX x" for x
  proof -
    from f1 that have "is_fin (lx st x)" by simp
    from is_fin_eq [OF this] obtain k where "lx st x = Fin k" by blast
    with that show ?thesis by (simp add: update_labels_eq d dsub_def)
  qed
  have ly': "ly (update_labels NX NY st) y = (if T st y then Fin (real_of (ly st y) + d) else ly st y)"
    if "in_range NY y" for y
  proof -
    from f2 that have "is_fin (ly st y)" by simp
    from is_fin_eq [OF this] obtain k where "ly st y = Fin k" by blast
    with that show ?thesis by (simp add: update_labels_eq d)
  qed
  have sl': "slack (update_labels NX NY st) y = Fin (real_of (slack st y) - d)"
    if "in_range NY y" "\<not> T st y" for y
  proof -
    from s1 that have "is_fin (slack st y)" by simp
    from is_fin_eq [OF this] obtain k where "slack st y = Fin k" by blast
    with that show ?thesis by (simp add: update_labels_eq d dsub_def)
  qed
  have fr: "S (update_labels NX NY st) = S st" "T (update_labels NX NY st) = T st"
    "yx (update_labels NX NY st) = yx st"
    by (simp_all add: update_labels_eq)
  have 1: "is_fin (lx ?st x) \<and> real_of (lx ?st x) \<le> M + 1" if "in_range NX x" for x
    using f1 [rule_format, OF that] d(2) by (simp add: lx' [OF that])
  have 2: "is_fin (ly ?st y) \<and> 0 \<le> real_of (ly ?st y)" if "in_range NY y" for y
    using f2 [rule_format, OF that] d(2) by (simp add: ly' [OF that])
  have 3: "real_of (val x y) \<le> real_of (lx ?st x) + real_of (ly ?st y)"
    if "in_range NX x \<and> in_range NY y" for x y
  proof -
    from that have x: "in_range NX x" and y: "in_range NY y" by simp_all
    from f3 x y have a: "real_of (val x y) \<le> real_of (lx st x) + real_of (ly st y)" by simp
    show ?thesis
    proof (cases "S st x \<and> \<not> T st y")
      case True
      with s2 y have "real_of (slack st y) \<le> real_of (lx st x) + real_of (ly st y) - real_of (val x y)"
        by simp
      moreover from d(3) y True have "d \<le> real_of (slack st y)" by simp
      ultimately show ?thesis using True by (simp add: lx' [OF x] ly' [OF y])
    next
      case False
      with a d(2) show ?thesis by (auto simp add: lx' [OF x] ly' [OF y])
    qed
  qed
  have 4: "real_of (ly ?st y) = 0" if "in_range NY y \<and> yx ?st y = - 1" for y
  proof -
    from that have y: "in_range NY y" and u: "yx st y = - 1" by (simp_all add: fr)
    from u Tr have "\<not> T st y" by auto
    with f4 y u show ?thesis by (simp add: ly' [OF y])
  qed
  from 1 2 3 4 show "feasible NX NY val M ?st" unfolding feasible_def by blast
  have 5: "is_fin (slack ?st y) \<and> 0 \<le> real_of (slack ?st y)"
    if "in_range NY y \<and> \<not> T ?st y" for y
  proof -
    from that have y: "in_range NY y" and t: "\<not> T st y" by (simp_all add: fr)
    from d(3) y t show ?thesis by (simp add: sl' [OF y t])
  qed
  have 6: "real_of (slack ?st y) \<le> real_of (lx ?st x) + real_of (ly ?st y) - real_of (val x y)"
    if "S ?st x \<and> in_range NY y \<and> \<not> T ?st y" for x y
  proof -
    from that have y: "in_range NY y" and t: "\<not> T st y" and sx: "S st x" by (simp_all add: fr)
    from sx Sr have x: "in_range NX x" by simp
    from s2 sx y t
    have "real_of (slack st y) \<le> real_of (lx st x) + real_of (ly st y) - real_of (val x y)"
      by simp
    then show ?thesis using sx t by (simp add: sl' [OF y t] lx' [OF x] ly' [OF y])
  qed
  from s3 have 7: "\<exists>y. in_range NY y \<and> yx ?st y = - 1" by (simp add: fr)
  from 5 6 7 show "slack_ok NY val ?st" unfolding slack_ok_def by blast
qed

text \<open>After the labels have been updated some column outside the tree has slack 0.\<close>

lemma update_progress:
  assumes ti: "tree_inv NX NY r st" and v: "val_ok NX NY val M" and M: "M \<le> DBL_MAX"
    and f: "feasible NX NY val M st" and s: "slack_ok NY val st"
  shows "\<exists>y. in_range NY y \<and> \<not> T st y \<and>
     slack ((update_labels NX NY st)\<lparr>wr := 0, rd := 0\<rparr>) y = Fin 0"
proof -
  from ti have r: "in_range NX r" "S st r"
    and Tr: "\<forall>y. T st y \<longrightarrow> in_range NY y \<and> yx st y \<noteq> - 1"
    by (simp_all add: tree_inv_def)
  from s have s1: "\<forall>y. in_range NY y \<and> \<not> T st y \<longrightarrow> is_fin (slack st y) \<and> 0 \<le> real_of (slack st y)"
    and s2: "\<forall>x y. S st x \<and> in_range NY y \<and> \<not> T st y \<longrightarrow>
        real_of (slack st y) \<le> real_of (lx st x) + real_of (ly st y) - real_of (val x y)"
    by (simp_all add: slack_ok_def)
  from s obtain y0 where y0: "in_range NY y0" "yx st y0 = - 1" by (auto simp: slack_ok_def)
  with Tr have t0: "\<not> T st y0" by auto
  from label_delta_props [OF s1] obtain d where
    d: "label_delta NY st = Fin d" "0 \<le> d"
    "\<forall>y. in_range NY y \<and> \<not> T st y \<longrightarrow> d \<le> real_of (slack st y)"
    "d = DBL_MAX \<or> (\<exists>y. in_range NY y \<and> \<not> T st y \<and> slack st y = Fin d)"
    by blast
  have "\<exists>y. in_range NY y \<and> \<not> T st y \<and> slack st y = Fin d"
  proof (cases "d = DBL_MAX")
    case False
    with d(4) show ?thesis by simp
  next
    case True
    from s2 r y0 t0
    have "real_of (slack st y0) \<le> real_of (lx st r) + real_of (ly st y0) - real_of (val r y0)"
      by simp
    moreover from f r have "real_of (lx st r) \<le> M + 1" by (simp add: feasible_def)
    moreover from f y0 have "real_of (ly st y0) = 0" by (simp add: feasible_def)
    moreover from v r y0 have "1 \<le> real_of (val r y0)" by (simp add: val_ok_def)
    ultimately have "real_of (slack st y0) \<le> DBL_MAX" using M by linarith
    moreover from d(3) y0 t0 True have "DBL_MAX \<le> real_of (slack st y0)" by simp
    ultimately have "real_of (slack st y0) = d" using True by simp
    moreover from s1 y0 t0 have "is_fin (slack st y0)" by simp
    ultimately have "slack st y0 = Fin d" using is_fin_eq by fastforce
    with y0 t0 show ?thesis by blast
  qed
  then obtain y where y: "in_range NY y" "\<not> T st y" "slack st y = Fin d" by blast
  then have "slack ((update_labels NX NY st)\<lparr>wr := 0, rd := 0\<rparr>) y = Fin 0"
    by (simp add: update_labels_eq d dsub_def)
  with y show ?thesis by blast
qed

lemma feasible_slack_init:
  assumes v: "val_ok NX NY val M" and f: "feasible NX NY val M st"
    and u: "\<exists>y. in_range NY y \<and> yx st y = - 1"
    and fr: "snd (find_root NX st) = Some r" and r: "in_range NX r"
    and ip: "init_phase NX NY val st = Inr st1"
  shows "feasible NX NY val M st1" and "slack_ok NY val st1"
proof -
  from ip have st1: "st1 = st\<lparr>S := (\<lambda>_. False)(r := True), T := (\<lambda>_. False),
             prev := (\<lambda>_. - 1)(r := - 2), q := (q st)(0 := r), wr := 1, rd := 0,
             slack := (\<lambda>y. if in_range NY y then dsub (dadd (lx st r) (ly st y)) (val r y)
                            else slack st y),
             slackx := (\<lambda>y. if in_range NY y then r else slackx st y)\<rparr>"
    by (simp add: init_phase_eq [OF fr])
  from f show "feasible NX NY val M st1" by (simp add: feasible_def st1)
  have sl: "slack st1 y = Fin (real_of (lx st r) + real_of (ly st y) - real_of (val r y))"
    if "in_range NY y" for y
    using that new_slack(1) [OF v f r that] by (simp add: st1)
  have 1: "is_fin (slack st1 y) \<and> 0 \<le> real_of (slack st1 y)" if "in_range NY y \<and> \<not> T st1 y" for y
    using that new_slack(2) [OF v f r, of y] by (simp add: sl)
  have 2: "real_of (slack st1 y) \<le> real_of (lx st1 x) + real_of (ly st1 y) - real_of (val x y)"
    if "S st1 x \<and> in_range NY y \<and> \<not> T st1 y" for x y
  proof -
    from that have "x = r" by (simp add: st1 split: if_splits)
    moreover have "lx st1 = lx st" "ly st1 = ly st" by (simp_all add: st1)
    ultimately show ?thesis using that by (simp add: sl)
  qed
  from u have 3: "\<exists>y. in_range NY y \<and> yx st1 y = - 1" by (simp add: st1)
  from 1 2 3 show "slack_ok NY val st1" unfolding slack_ok_def by blast
qed

lemma feasible_slack_add:
  assumes ti: "tree_inv NX NY r st" and v: "val_ok NX NY val M"
    and f: "feasible NX NY val M st" and s: "slack_ok NY val st"
    and y: "in_range NY y" "\<not> T st y" "yx st y \<noteq> - 1"
  shows "feasible NX NY val M (add_to_tree NY val (yx st y) x0
            (st\<lparr>T := (T st)(y := True), q := (q st)(wr st := yx st y), wr := wr st + 1\<rparr>))"
    and "slack_ok NY val (add_to_tree NY val (yx st y) x0
            (st\<lparr>T := (T st)(y := True), q := (q st)(wr st := yx st y), wr := wr st + 1\<rparr>))"
proof -
  from ti y have x: "in_range NX (yx st y)" by (auto simp: tree_inv_def match_inv_def)
  from f show "feasible NX NY val M (add_to_tree NY val (yx st y) x0
            (st\<lparr>T := (T st)(y := True), q := (q st)(wr st := yx st y), wr := wr st + 1\<rparr>))"
    by (simp only: feasible_add)
  from v f s x y(2) show "slack_ok NY val (add_to_tree NY val (yx st y) x0
            (st\<lparr>T := (T st)(y := True), q := (q st)(wr st := yx st y), wr := wr st + 1\<rparr>))"
    by (rule slack_ok_add)
qed

definition scan_progress :: "int \<Rightarrow> (int \<Rightarrow> bool) \<Rightarrow> int \<Rightarrow> kstate \<Rightarrow> bool" where
  "scan_progress NY T0 y st \<longleftrightarrow>
     (\<forall>y'. T0 y' \<longrightarrow> T st y') \<and>
     (\<exists>y'. in_range NY y' \<and>
        ((T st y' \<and> \<not> T0 y') \<or> (y \<le> y' \<and> \<not> T st y' \<and> slack st y' = Fin 0)))"

lemma scan_progress_skip:
  assumes "scan_progress NY T0 y st" and "\<not> (\<not> T st y \<and> eq (slack st y) (Fin 0))"
  shows "scan_progress NY T0 (y + 1) st"
proof -
  from assms(1) obtain y' where y': "in_range NY y'"
    "(T st y' \<and> \<not> T0 y') \<or> (y \<le> y' \<and> \<not> T st y' \<and> slack st y' = Fin 0)"
    and mono: "\<forall>y'. T0 y' \<longrightarrow> T st y'"
    by (auto simp: scan_progress_def)
  from y'(2) have "(T st y' \<and> \<not> T0 y') \<or> (y + 1 \<le> y' \<and> \<not> T st y' \<and> slack st y' = Fin 0)"
  proof
    assume "T st y' \<and> \<not> T0 y'" then show ?thesis by simp
  next
    assume a: "y \<le> y' \<and> \<not> T st y' \<and> slack st y' = Fin 0"
    with assms(2) eq_zero have "y' \<noteq> y" by auto
    with a show ?thesis by simp
  qed
  with y'(1) mono show ?thesis unfolding scan_progress_def by blast
qed

lemma scan_progress_add:
  assumes v: "val_ok NX NY val M" and f: "feasible NX NY val M st"
    and x: "in_range NX x" and t: "\<not> T st y" and yr: "in_range NY y"
    and p: "scan_progress NY T0 y st"
  shows "scan_progress NY T0 (y + 1) (add_to_tree NY val x x0
            (st\<lparr>T := (T st)(y := True), q := q', wr := w'\<rparr>))"
proof -
  let ?st = "add_to_tree NY val x x0 (st\<lparr>T := (T st)(y := True), q := q', wr := w'\<rparr>)"
  from p obtain y' where y': "in_range NY y'"
    "(T st y' \<and> \<not> T0 y') \<or> (y \<le> y' \<and> \<not> T st y' \<and> slack st y' = Fin 0)"
    and mono: "\<forall>y'. T0 y' \<longrightarrow> T st y'"
    by (auto simp: scan_progress_def)
  have T': "T ?st = (T st)(y := True)" by (simp add: add_to_tree_eq)
  from mono have m': "\<forall>y'. T0 y' \<longrightarrow> T ?st y'" by (simp add: T')
  from mono t have t0: "\<not> T0 y" by auto
  show ?thesis
  proof (cases "y' = y \<or> T st y'")
    case True
    with y'(2) t0 have "T ?st y' \<and> \<not> T0 y'" by (auto simp: T')
    with y'(1) m' show ?thesis unfolding scan_progress_def by blast
  next
    case False
    with y'(2) have a: "y \<le> y'" "\<not> T st y'" "slack st y' = Fin 0" "y' \<noteq> y" by auto
    have "slack ?st y' = Fin 0"
      using new_slack [OF v f x y'(1)] a(3) y'(1) by (simp add: add_to_tree_eq)
    with a have "y + 1 \<le> y' \<and> \<not> T ?st y' \<and> slack ?st y' = Fin 0" by (simp add: T')
    with y'(1) m' show ?thesis unfolding scan_progress_def by blast
  qed
qed

lemma scan_progress_end:
  assumes "scan_progress NY T0 NY st"
  shows "card {y. in_range NY y \<and> \<not> T st y} < card {y. in_range NY y \<and> \<not> T0 y}"
proof -
  from assms obtain y' where y': "in_range NY y'" "T st y'" "\<not> T0 y'"
    and mono: "\<forall>y'. T0 y' \<longrightarrow> T st y'"
    by (auto simp: scan_progress_def in_range_def)
  have "{y. in_range NY y \<and> \<not> T st y} \<subset> {y. in_range NY y \<and> \<not> T0 y}"
    using y' mono by auto
  moreover have "finite {y. in_range NY y \<and> \<not> T0 y}"
    by (rule finite_subset [OF _ finite_in_range [of NY]]) auto
  ultimately show ?thesis by (rule psubset_card_mono [rotated])
qed

lemma main_cycle_returns:
  assumes v: "val_ok NX NY val M" and M: "M \<le> DBL_MAX" and NY0: "0 \<le> NY"
    and ti: "tree_inv NX NY r st" and f: "feasible NX NY val M st" and s: "slack_ok NY val st"
  shows "\<exists>res. main_cycle NX NY val st = Some res"
  using ti f s
proof (induction "card {y. in_range NY y \<and> \<not> T st y}" arbitrary: st rule: less_induct)
  case less
  let ?J = "\<lambda>s. feasible NX NY val M s \<and> slack_ok NY val s \<and> (\<forall>y. T st y \<longrightarrow> T s y)"
  have "\<exists>b st1. bfs NX NY val st = Inr (b, st1) \<and> tree_inv NX NY r st1 \<and> ?J st1 \<and>
           ((b = None \<and> \<not> rd st1 < wr st1) \<or>
            (\<exists>x y. b = Some (x, y) \<and> exposed NY st1 x y \<and>
                   eq (val x y) (dadd (lx st1 x) (ly st1 y))))"
  proof (rule bfs_inv [where J = ?J])
    show "tree_inv NX NY r st" by (rule less.prems)
    show "?J st" using less.prems by simp
  next
    fix s assume "?J s"
    then show "?J (s\<lparr>rd := rd s + 1\<rparr>)" by (simp add: feasible_def slack_ok_def)
  next
    fix s x0 y
    assume a: "tree_inv NX NY r s" "?J s" and y: "in_range NY y" "\<not> T s y" "yx s y \<noteq> - 1"
    let ?s = "add_to_tree NY val (yx s y) x0
            (s\<lparr>T := (T s)(y := True), q := (q s)(wr s := yx s y), wr := wr s + 1\<rparr>)"
    from a have f: "feasible NX NY val M s" and sl: "slack_ok NY val s" by simp_all
    have "feasible NX NY val M ?s" using a(1) v f sl y by (rule feasible_slack_add)
    moreover have "slack_ok NY val ?s" using a(1) v f sl y by (rule feasible_slack_add)
    moreover have "\<forall>y. T st y \<longrightarrow> T ?s y" using a(2) by (simp add: add_to_tree_eq)
    ultimately show "?J ?s" by blast
  qed
  then obtain b st1 where
    b: "bfs NX NY val st = Inr (b, st1)" and ti1: "tree_inv NX NY r st1"
    and f1: "feasible NX NY val M st1" and s1: "slack_ok NY val st1"
    and m1: "\<forall>y. T st y \<longrightarrow> T st1 y"
    and bc: "(b = None \<and> \<not> rd st1 < wr st1) \<or> (\<exists>x y. b = Some (x, y))"
    by blast
  from bc show ?case
  proof
    assume "\<exists>x y. b = Some (x, y)"
    then obtain x y where "b = Some (x, y)" by blast
    with b show ?thesis by (subst main_cycle.simps) simp
  next
    assume n: "b = None \<and> \<not> rd st1 < wr st1"
    let ?st2 = "(update_labels NX NY st1)\<lparr>wr := 0, rd := 0\<rparr>"
    let ?K = "\<lambda>y s. feasible NX NY val M s \<and> slack_ok NY val s \<and> scan_progress NY (T st1) y s"
    have ti2: "tree_inv NX NY r ?st2" using ti1 by (rule tree_inv_update_labels)
    have f2: "feasible NX NY val M ?st2" using ti1 v f1 s1 by (rule feasible_slack_update)
    have s2: "slack_ok NY val ?st2" using ti1 v f1 s1 by (rule feasible_slack_update)
    from update_progress [OF ti1 v M f1 s1] obtain y0 where
      y0: "in_range NY y0" "\<not> T st1 y0" "slack ?st2 y0 = Fin 0" by blast
    have T2: "T ?st2 = T st1" by (simp add: update_labels_eq)
    have p2: "scan_progress NY (T st1) 0 ?st2"
      unfolding scan_progress_def using y0 T2 by (auto simp: in_range_def)
    have "\<exists>c st3. slack_scan NX NY val 0 ?st2 = Inr (c, st3) \<and> tree_inv NX NY r st3 \<and>
           ((c = None \<and> ?K NY st3) \<or>
            (\<exists>y'. c = Some (slackx st3 y', y') \<and> ?K y' st3 \<and> exposed NY st3 (slackx st3 y') y' \<and>
                  eq (slack st3 y') (Fin 0)))"
    proof (rule slack_scan_inv [where J = ?K])
      show "tree_inv NX NY r ?st2" by (rule ti2)
      show "?K 0 ?st2" using f2 s2 p2 by simp
      show "(0::int) \<le> 0" by simp
      show "0 \<le> NY" by (rule NY0)
    next
      fix s y assume "?K y s" "\<not> (\<not> T s y \<and> eq (slack s y) (Fin 0))"
      then show "?K (y + 1) s" using scan_progress_skip by blast
    next
      fix s y
      assume a: "tree_inv NX NY r s" "?K y s" and y: "in_range NY y" "\<not> T s y" "yx s y \<noteq> - 1"
      let ?s = "add_to_tree NY val (yx s y) (slackx s y)
            (s\<lparr>T := (T s)(y := True), q := (q s)(wr s := yx s y), wr := wr s + 1\<rparr>)"
      from a have f: "feasible NX NY val M s" and sl: "slack_ok NY val s"
        and p: "scan_progress NY (T st1) y s" by simp_all
      from a(1) y have x: "in_range NX (yx s y)" by (auto simp: tree_inv_def match_inv_def)
      have "feasible NX NY val M ?s" using a(1) v f sl y by (rule feasible_slack_add)
      moreover have "slack_ok NY val ?s" using a(1) v f sl y by (rule feasible_slack_add)
      moreover have "scan_progress NY (T st1) (y + 1) ?s"
        using v f x y(2) y(1) p by (rule scan_progress_add)
      ultimately show "?K (y + 1) ?s" by blast
    qed
    then obtain c st3 where
      c: "slack_scan NX NY val 0 ?st2 = Inr (c, st3)" and ti3: "tree_inv NX NY r st3"
      and cc: "(c = None \<and> ?K NY st3) \<or> (\<exists>x y. c = Some (x, y))"
      by blast
    from cc show ?thesis
    proof
      assume "\<exists>x y. c = Some (x, y)"
      then obtain x y where "c = Some (x, y)" by blast
      with b n c show ?thesis by (subst main_cycle.simps) simp
    next
      assume k: "c = None \<and> ?K NY st3"
      then have "card {y. in_range NY y \<and> \<not> T st3 y} < card {y. in_range NY y \<and> \<not> T st1 y}"
        using scan_progress_end by blast
      moreover have "card {y. in_range NY y \<and> \<not> T st1 y} \<le> card {y. in_range NY y \<and> \<not> T st y}"
      proof (rule card_mono)
        show "finite {y. in_range NY y \<and> \<not> T st y}"
          by (rule finite_subset [OF _ finite_in_range [of NY]]) auto
        show "{y. in_range NY y \<and> \<not> T st1 y} \<subseteq> {y. in_range NY y \<and> \<not> T st y}"
          using m1 by auto
      qed
      ultimately have "card {y. in_range NY y \<and> \<not> T st3 y} < card {y. in_range NY y \<and> \<not> T st y}"
        by simp
      from less.hyps [OF this ti3] k obtain res where "main_cycle NX NY val st3 = Some res"
        by blast
      with b n c k show ?thesis by (subst main_cycle.simps) simp
    qed
  qed
qed

definition matched :: "int \<Rightarrow> kstate \<Rightarrow> int set" where
  "matched NX st = {x. in_range NX x \<and> xy st x \<noteq> - 1}"

lemma finite_matched: "finite (matched NX st)"
  unfolding matched_def by (rule finite_subset [OF _ finite_in_range [of NX]]) auto

lemma unmatched_exists:
  assumes m: "match_inv NX NY st" and c: "int (card (matched NX st)) < NX" and le: "NX \<le> NY"
  shows "\<exists>x. in_range NX x \<and> xy st x = - 1" and "\<exists>y. in_range NY y \<and> yx st y = - 1"
proof -
  from c have NX0: "0 \<le> NX" by simp
  show "\<exists>x. in_range NX x \<and> xy st x = - 1"
  proof (rule ccontr)
    assume "\<not> ?thesis"
    then have "matched NX st = {x. in_range NX x}" by (auto simp: matched_def)
    with card_in_range [OF NX0] c show False by simp
  qed
  let ?B = "{y. in_range NY y \<and> yx st y \<noteq> - 1}"
  have inj: "inj_on (yx st) ?B"
  proof (rule inj_onI)
    fix a b assume "a \<in> ?B" "b \<in> ?B" "yx st a = yx st b"
    with m show "a = b" by (auto simp: match_inv_def) metis
  qed
  have sub: "yx st ` ?B \<subseteq> matched NX st"
  proof
    fix x assume "x \<in> yx st ` ?B"
    then obtain y where y: "in_range NY y" "yx st y \<noteq> - 1" "x = yx st y" by auto
    with m have "in_range NX x \<and> xy st x = y" by (auto simp: match_inv_def)
    with y(1) show "x \<in> matched NX st" by (auto simp: matched_def in_range_def)
  qed
  have cB: "card ?B \<le> card (matched NX st)"
    using inj sub finite_matched by (rule card_inj_on_le)
  show "\<exists>y. in_range NY y \<and> yx st y = - 1"
  proof (rule ccontr)
    assume "\<not> ?thesis"
    then have "?B = {y. in_range NY y}" by auto
    moreover from le NX0 have "0 \<le> NY" by simp
    ultimately have "int (card ?B) = NY" using card_in_range by simp
    with cB c le show False by simp
  qed
qed

lemma root_exists:
  assumes m: "match_inv NX NY st" and v: "val_ok NX NY val M" and f: "feasible NX NY val M st"
    and c: "int (card (matched NX st)) < NX" and le: "NX \<le> NY"
  shows "\<exists>r. snd (find_root NX st) = Some r \<and> in_range NX r \<and> xy st r = - 1"
proof -
  from unmatched_exists [OF m c le] obtain x y where
    x: "in_range NX x" "xy st x = - 1" and y: "in_range NY y" "yx st y = - 1"
    by blast
  from f have f1: "\<forall>x. in_range NX x \<longrightarrow> is_fin (lx st x) \<and> real_of (lx st x) \<le> M + 1"
    and f3: "\<forall>x y. in_range NX x \<and> in_range NY y \<longrightarrow>
        real_of (val x y) \<le> real_of (lx st x) + real_of (ly st y)"
    and f4: "\<forall>y. in_range NY y \<and> yx st y = - 1 \<longrightarrow> real_of (ly st y) = 0"
    by (simp_all add: feasible_def)
  from f1 f3 f4 x y have "real_of (val x y) \<le> real_of (lx st x) + real_of (ly st y)"
    "real_of (ly st y) = 0" "is_fin (lx st x)"
    by blast+
  moreover from v x y have "1 \<le> real_of (val x y)" by (simp add: val_ok_def)
  ultimately have "1 \<le> real_of (lx st x)" "lx st x = Fin (real_of (lx st x))"
    using is_fin_eq by simp_all
  then have "dless (Fin DBL_MIN) (lx st x)"
    using DBL_MIN_less_1 by (metis dless.simps(1) less_le_trans)
  with x find_root_cases [of NX st] show ?thesis by blast
qed

lemma augment_keeps_matched:
  assumes "augment NX NY cx cy st = Some (Inr st')" and "yx st y \<noteq> - 1"
  shows "yx st' y \<noteq> - 1"
proof -
  have "res = Inr st' \<longrightarrow> yx st y \<noteq> - 1 \<longrightarrow> yx st' y \<noteq> - 1"
    if "augment NX NY cx cy st = Some res" for res
    using that
  proof (induction rule: augment.raw_induct [rotated, consumes 1, case_names step])
    case (step f NX NY cx cy st res)
    show ?case
    proof (cases "cx = - 2")
      case True
      with step.hyps show ?thesis by auto
    next
      case False
      show ?thesis
      proof (cases "in_range NX cx \<and> in_range NY cy")
        case r: True
        let ?st1 = "st\<lparr>yx := (yx st)(cy := cx), xy := (xy st)(cx := cy)\<rparr>"
        from step.hyps False r have "f NX NY (prev st cx) (xy st cx) ?st1 = Some res" by simp
        from step.IH [OF this] have "res = Inr st' \<longrightarrow> yx ?st1 y \<noteq> - 1 \<longrightarrow> yx st' y \<noteq> - 1" .
        moreover from r have "cx \<noteq> - 1" by (simp add: in_range_def)
        ultimately show ?thesis by auto
      next
        case nr: False
        with step.hyps False have "res = Inl OutOfBounds" by auto
        then show ?thesis by simp
      qed
    qed
  qed
  from this [OF assms(1)] assms(2) show ?thesis by simp
qed

lemma phase_total:
  assumes m: "match_inv NX NY st" and v: "val_ok NX NY val M" and M: "M \<le> DBL_MAX"
    and f: "feasible NX NY val M st"
    and c: "int (card (matched NX st)) = n" and n: "n < NX" and le: "NX \<le> NY"
  shows "\<exists>st1 x y st2 st3. init_phase NX NY val st = Inr st1 \<and>
      main_cycle NX NY val st1 = Some (Inr (x, y, st2)) \<and>
      augment NX NY x y st2 = Some (Inr st3) \<and>
      match_inv NX NY st3 \<and> feasible NX NY val M st3 \<and> int (card (matched NX st3)) = n + 1"
proof -
  from c n have c': "int (card (matched NX st)) < NX" by simp
  from c n le have NY0: "0 \<le> NY" by simp
  from root_exists [OF m v f c' le] obtain r0 where
    r0: "snd (find_root NX st) = Some r0" "in_range NX r0" by blast
  then obtain st1 where ip: "init_phase NX NY val st = Inr st1"
    by (simp add: init_phase_eq)
  from unmatched_exists(2) [OF m c' le] have u: "\<exists>y. in_range NY y \<and> yx st y = - 1" .
  have xy1: "xy st1 = xy st" using ip by (auto simp: init_phase_eq [OF r0(1)])
  let ?J = "\<lambda>(r::int) s. feasible NX NY val M s \<and> slack_ok NY val s \<and> xy s = xy st"
  from init_phase_tree [OF m ip] obtain r where
    r: "in_range NX r" "xy st r = - 1" "snd (find_root NX st) = Some r"
    and ti: "tree_inv NX NY r st1"
    by blast
  have f1: "feasible NX NY val M st1" using v f u r(3) r(1) ip by (rule feasible_slack_init)
  have s1: "slack_ok NY val st1" using v f u r(3) r(1) ip by (rule feasible_slack_init)
  from main_cycle_returns [OF v M NY0 ti f1 s1] obtain res where
    mc: "main_cycle NX NY val st1 = Some res" by blast
  have "\<exists>r rank x y st2 st3. res = Inr (x, y, st2) \<and> in_range NX r \<and> xy st r = - 1 \<and>
      tree_inv NX NY r st2 \<and> ?J r st2 \<and> exposed NY st2 x y \<and> found_edge val st2 x y \<and>
      tree_ranked r rank st2 \<and>
      augment NX NY x y st2 = Some (Inr st3) \<and> aug_post NX NY r rank x y st2 st3"
  proof (rule phase_partial [where J = ?J, OF m NY0 ip mc])
    fix r assume "snd (find_root NX st) = Some r" "in_range NX r"
    then show "?J r st1" using v f u ip xy1 feasible_slack_init by blast
  next
    fix r s assume "?J r s"
    then show "?J r (s\<lparr>rd := rd s + 1\<rparr>)" by (simp add: feasible_def slack_ok_def)
  next
    fix r s x0 y
    assume a: "tree_inv NX NY r s" "?J r s" and y: "in_range NY y" "\<not> T s y" "yx s y \<noteq> - 1"
    let ?s = "add_to_tree NY val (yx s y) x0
            (s\<lparr>T := (T s)(y := True), q := (q s)(wr s := yx s y), wr := wr s + 1\<rparr>)"
    from a have f: "feasible NX NY val M s" and sl: "slack_ok NY val s" by simp_all
    have "feasible NX NY val M ?s" using a(1) v f sl y by (rule feasible_slack_add)
    moreover have "slack_ok NY val ?s" using a(1) v f sl y by (rule feasible_slack_add)
    moreover have "xy ?s = xy st" using a(2) by (simp add: add_to_tree_eq)
    ultimately show "?J r ?s" by blast
  next
    fix r s assume a: "tree_inv NX NY r s" "?J r s"
    let ?s = "(update_labels NX NY s)\<lparr>wr := 0, rd := 0\<rparr>"
    from a have f: "feasible NX NY val M s" and sl: "slack_ok NY val s" by simp_all
    have "feasible NX NY val M ?s" using a(1) v f sl by (rule feasible_slack_update)
    moreover have "slack_ok NY val ?s" using a(1) v f sl by (rule feasible_slack_update)
    moreover have "xy ?s = xy st" using a(2) by (simp add: update_labels_eq)
    ultimately show "?J r ?s" by blast
  next
    fix r s y
    assume a: "tree_inv NX NY r s" "?J r s" and y: "in_range NY y" "\<not> T s y" "yx s y \<noteq> - 1"
    let ?s = "add_to_tree NY val (yx s y) (slackx s y)
            (s\<lparr>T := (T s)(y := True), q := (q s)(wr s := yx s y), wr := wr s + 1\<rparr>)"
    from a have f: "feasible NX NY val M s" and sl: "slack_ok NY val s" by simp_all
    have "feasible NX NY val M ?s" using a(1) v f sl y by (rule feasible_slack_add)
    moreover have "slack_ok NY val ?s" using a(1) v f sl y by (rule feasible_slack_add)
    moreover have "xy ?s = xy st" using a(2) by (simp add: add_to_tree_eq)
    ultimately show "?J r ?s" by blast
  qed
  then obtain r' rk x y st2 st3 where
    res: "res = Inr (x, y, st2)" and r': "in_range NX r'" "xy st r' = - 1"
    and f2: "feasible NX NY val M st2" and xy2: "xy st2 = xy st"
    and au: "augment NX NY x y st2 = Some (Inr st3)"
    and ap: "aug_post NX NY r' rk x y st2 st3"
    by blast
  from ap have m3: "match_inv NX NY st3" and st3: "st3 = st2\<lparr>xy := xy st3, yx := yx st3\<rparr>"
    and mt: "\<forall>x. in_range NX x \<longrightarrow> (xy st3 x \<noteq> - 1 \<longleftrightarrow> xy st2 x \<noteq> - 1 \<or> x = r')"
    by (simp_all add: aug_post_def)
  have l3: "lx st3 = lx st2" "ly st3 = ly st2"
    by (subst st3, simp)+
  have k: "yx st2 y' = - 1" if "yx st3 y' = - 1" for y'
    using augment_keeps_matched [OF au, of y'] that by blast
  have f3: "feasible NX NY val M st3"
    using f2 k unfolding feasible_def l3 by blast
  have "matched NX st3 = insert r' (matched NX st)"
    using mt r'(1) by (auto simp: matched_def xy2)
  moreover have "r' \<notin> matched NX st" using r'(2) by (simp add: matched_def)
  ultimately have "card (matched NX st3) = Suc (card (matched NX st))"
    using finite_matched [of NX st] by simp
  with c have c3: "int (card (matched NX st3)) = n + 1" by simp
  from ip mc res au m3 f3 c3 show ?thesis by blast
qed

lemma outer_loop_total:
  assumes v: "val_ok NX NY val M" and M: "M \<le> DBL_MAX" and NX0: "0 \<le> NX" and le: "NX \<le> NY"
    and m: "match_inv NX NY st" and f: "feasible NX NY val M st"
    and c: "int (card (matched NX st)) = n"
  shows "\<exists>st'. outer_loop NX NY val n st = Some (Inr (NX, st')) \<and> match_inv NX NY st' \<and>
     feasible NX NY val M st'"
  using m f c
proof (induction "nat (NX - n)" arbitrary: n st rule: less_induct)
  case less
  have nle: "n \<le> NX"
  proof -
    have "matched NX st \<subseteq> {x. in_range NX x}" by (auto simp: matched_def)
    then have "card (matched NX st) \<le> card {x. in_range NX x}"
      by (intro card_mono finite_in_range)
    then show ?thesis using less.prems(3) card_in_range [OF NX0] by simp
  qed
  show ?case
  proof (cases "n < NX")
    case False
    with nle have "n = NX" by simp
    with le less.prems show ?thesis by (subst outer_loop.simps) simp
  next
    case True
    from phase_total [OF less.prems(1) v M less.prems(2,3) True le]
    obtain st1 x y st2 st3 where
      a: "init_phase NX NY val st = Inr st1" "main_cycle NX NY val st1 = Some (Inr (x, y, st2))"
      "augment NX NY x y st2 = Some (Inr st3)"
      and b: "match_inv NX NY st3" "feasible NX NY val M st3" "int (card (matched NX st3)) = n + 1"
      by blast
    from True have "nat (NX - (n + 1)) < nat (NX - n)" by simp
    from less.hyps [OF this b] obtain st' where
      "outer_loop NX NY val (n + 1) st3 = Some (Inr (NX, st'))" "match_inv NX NY st'"
      "feasible NX NY val M st'"
      by blast
    with a True le show ?thesis by (subst outer_loop.simps) simp
  qed
qed

lemma row_max:
  fixes x NY :: int
  assumes v: "\<forall>y. in_range NY y \<longrightarrow> is_fin (val x y) \<and> real_of (val x y) \<le> B"
    and l: "is_fin (l x)" "real_of (l x) \<le> B"
  shows "is_fin (for_loop 0 NY (\<lambda>y l. l(x := std_max (l x) (val x y))) l x) \<and>
     real_of (for_loop 0 NY (\<lambda>y l. l(x := std_max (l x) (val x y))) l x) \<le> B \<and>
     (\<forall>y. in_range NY y \<longrightarrow>
        real_of (val x y) \<le> real_of (for_loop 0 NY (\<lambda>y l. l(x := std_max (l x) (val x y))) l x)) \<and>
     (\<forall>x'. x' \<noteq> x \<longrightarrow> for_loop 0 NY (\<lambda>y l. l(x := std_max (l x) (val x y))) l x' = l x')"
proof -
  let ?I = "\<lambda>i (l' :: int \<Rightarrow> double). is_fin (l' x) \<and> real_of (l' x) \<le> B \<and>
     (\<forall>y. 0 \<le> y \<and> y < i \<longrightarrow> real_of (val x y) \<le> real_of (l' x)) \<and>
     (\<forall>x'. x' \<noteq> x \<longrightarrow> l' x' = l x')"
  have "?I (max 0 NY) (for_loop 0 NY (\<lambda>y l. l(x := std_max (l x) (val x y))) l)"
  proof (rule for_loop_invariant [where I = ?I])
    show "?I 0 l" using l by simp
  next
    fix i and s :: "int \<Rightarrow> double"
    assume i: "0 \<le> i" "i < NY" and I: "?I i s"
    from i v have vi: "is_fin (val x i)" "real_of (val x i) \<le> B" by (simp_all add: in_range_def)
    from is_fin_eq [OF vi(1)] obtain a where a: "val x i = Fin a" by blast
    from I is_fin_eq obtain b where b: "s x = Fin b" by blast
    have "\<forall>y. 0 \<le> y \<and> y < i + 1 \<longrightarrow> real_of (val x y) \<le> real_of (std_max (s x) (val x i))"
    proof (intro allI impI)
      fix y assume y: "0 \<le> y \<and> y < i + 1"
      show "real_of (val x y) \<le> real_of (std_max (s x) (val x i))"
      proof (cases "y = i")
        case True
        then show ?thesis by (simp add: a b std_max_def)
      next
        case False
        with y I have "real_of (val x y) \<le> real_of (s x)" by simp
        then show ?thesis by (simp add: a b std_max_def)
      qed
    qed
    moreover have "is_fin (std_max (s x) (val x i)) \<and> real_of (std_max (s x) (val x i)) \<le> B"
      using I vi by (simp add: a b std_max_def)
    ultimately show "?I (i + 1) (s(x := std_max (s x) (val x i)))"
      using I by simp
  qed
  then show ?thesis
    by (auto simp: in_range_def max_def split: if_splits)
qed

lemma init_labels:
  assumes v: "val_ok NX NY val M" and M: "0 \<le> M" and x: "in_range NX x"
  shows "is_fin (lx (init_state NX NY val) x) \<and> real_of (lx (init_state NX NY val) x) \<le> M + 1 \<and>
     (\<forall>y. in_range NY y \<longrightarrow> real_of (val x y) \<le> real_of (lx (init_state NX NY val) x))"
proof -
  let ?inner = "\<lambda>x l. for_loop 0 NY (\<lambda>y l. l(x := std_max (l x) (val x y))) l"
  let ?I = "\<lambda>i (l :: int \<Rightarrow> double).
     (\<forall>x. 0 \<le> x \<and> x < i \<longrightarrow> is_fin (l x) \<and> real_of (l x) \<le> M + 1 \<and>
        (\<forall>y. in_range NY y \<longrightarrow> real_of (val x y) \<le> real_of (l x))) \<and>
     (\<forall>x. i \<le> x \<longrightarrow> l x = Fin 0)"
  have "?I (max 0 NX) (for_loop 0 NX ?inner (\<lambda>_. Fin 0))"
  proof (rule for_loop_invariant [where I = ?I])
    show "?I 0 (\<lambda>_. Fin 0)" by simp
  next
    fix i and s :: "int \<Rightarrow> double"
    assume i: "0 \<le> i" "i < NX" and I: "?I i s"
    from i have ir: "in_range NX i" by (simp add: in_range_def)
    from I have si: "s i = Fin 0" by simp
    have vi: "\<forall>y. in_range NY y \<longrightarrow> is_fin (val i y) \<and> real_of (val i y) \<le> M + 1"
      using v ir by (simp add: val_ok_def)
    have li: "is_fin (s i)" "real_of (s i) \<le> M + 1" using si M by simp_all
    note rm = row_max [where val = val and x = i and l = s and NY = NY and B = "M + 1", OF vi li]
    have "is_fin (?inner i s x') \<and> real_of (?inner i s x') \<le> M + 1 \<and>
        (\<forall>y. in_range NY y \<longrightarrow> real_of (val x' y) \<le> real_of (?inner i s x'))"
      if "0 \<le> x' \<and> x' < i + 1" for x'
    proof (cases "x' = i")
      case True
      with rm show ?thesis by blast
    next
      case False
      with rm have "?inner i s x' = s x'" by blast
      moreover from False that have "0 \<le> x' \<and> x' < i" by simp
      ultimately show ?thesis using I by simp
    qed
    moreover have "?inner i s x' = Fin 0" if "i + 1 \<le> x'" for x'
    proof -
      from that have "x' \<noteq> i" by simp
      with rm have "?inner i s x' = s x'" by blast
      with I that show ?thesis by simp
    qed
    ultimately show "?I (i + 1) (?inner i s)" by blast
  qed
  moreover have "lx (init_state NX NY val) = for_loop 0 NX ?inner (\<lambda>_. Fin 0)"
    by (simp add: init_state_def)
  ultimately show ?thesis using x by (simp add: in_range_def max_def split: if_splits)
qed

lemma feasible_init:
  assumes v: "val_ok NX NY val M" and M: "0 \<le> M"
  shows "feasible NX NY val M (init_state NX NY val)"
proof -
  have ly0: "ly (init_state NX NY val) = (\<lambda>_. Fin 0)" by (simp add: init_state_def)
  show ?thesis
    unfolding feasible_def ly0 using init_labels [OF v M] by simp
qed

lemma hungarian_returns:
  assumes v: "val_ok NX NY val M" and M: "0 \<le> M" "M \<le> DBL_MAX"
    and NX0: "0 \<le> NX" and le: "NX \<le> NY"
  shows "\<exists>st. hungarian NX NY val = Some (Inr (NX, st))"
proof -
  have "matched NX (init_state NX NY val) = {}" by (simp add: matched_def init_state_def)
  then have c: "int (card (matched NX (init_state NX NY val))) = 0" by simp
  from outer_loop_total [OF v M(2) NX0 le match_inv_init feasible_init [OF v M(1)] c]
  show ?thesis unfolding hungarian_def by blast
qed

lemma fold_std_max_fin:
  assumes "\<forall>a \<in> set xs. \<exists>c. cost a = Fin c \<and> 0 \<le> c \<and> c \<le> D" and "0 \<le> m" "m \<le> D"
  shows "\<exists>M. fold (\<lambda>a m. std_max m (cost a)) xs (Fin m) = Fin M \<and> m \<le> M \<and> M \<le> D \<and>
     (\<forall>a \<in> set xs. real_of (cost a) \<le> M)"
  using assms
proof (induction xs arbitrary: m)
  case Nil
  then show ?case by simp
next
  case (Cons x xs)
  from Cons.prems(1) obtain c where c: "cost x = Fin c" "0 \<le> c" "c \<le> D" by auto
  have s: "std_max (Fin m) (cost x) = Fin (max m c)" by (simp add: std_max_def c max_def)
  from Cons.prems have "\<forall>a \<in> set xs. \<exists>c. cost a = Fin c \<and> 0 \<le> c \<and> c \<le> D" by simp
  moreover have "0 \<le> max m c" "max m c \<le> D" using Cons.prems c by simp_all
  ultimately obtain M where
    M: "fold (\<lambda>a m. std_max m (cost a)) xs (Fin (max m c)) = Fin M" "max m c \<le> M" "M \<le> D"
    "\<forall>a \<in> set xs. real_of (cost a) \<le> M"
    using Cons.IH by blast
  have "fold (\<lambda>a m. std_max m (cost a)) (x # xs) (Fin m)
      = fold (\<lambda>a m. std_max m (cost a)) xs (Fin (max m c))"
    using s by simp
  with M c show ?case by (intro exI [of _ M]) auto
qed

lemma max_cost_fin:
  assumes "\<forall>a \<in> set xs. \<exists>c. cost a = Fin c \<and> 0 \<le> c \<and> c \<le> DBL_MAX"
  shows "\<exists>M. max_cost xs = Fin M \<and> 0 \<le> M \<and> M \<le> DBL_MAX \<and> (\<forall>a \<in> set xs. real_of (cost a) \<le> M)"
  unfolding max_cost_def
  using fold_std_max_fin [OF assms, of 0] DBL_MAX_pos by simp

lemma value_entry_ok:
  assumes c: "\<exists>c. cost a = Fin c \<and> 0 \<le> c" "real_of (cost a) \<le> M"
  shows "is_fin (dadd (dsub (Fin M) (cost a)) (Fin 1)) \<and>
     1 \<le> real_of (dadd (dsub (Fin M) (cost a)) (Fin 1)) \<and>
     real_of (dadd (dsub (Fin M) (cost a)) (Fin 1)) \<le> M + 1"
  using c by (auto simp: dsub_def)

lemma val_ok_by_character:
  assumes "\<forall>a \<in> set xs. \<exists>c. cost a = Fin c \<and> 0 \<le> c \<and> c \<le> DBL_MAX" and "max_cost xs = Fin M"
  shows "val_ok NX NY (value_by_character xs) M"
proof -
  from max_cost_fin [OF assms(1)] assms(2) have M: "0 \<le> M" "\<forall>a \<in> set xs. real_of (cost a) \<le> M"
    by auto
  show ?thesis
    unfolding val_ok_def
  proof (intro allI impI)
    fix x y
    from value_by_character_entry [of xs x y]
    show "is_fin (value_by_character xs x y) \<and> 1 \<le> real_of (value_by_character xs x y) \<and>
        real_of (value_by_character xs x y) \<le> M + 1"
    proof
      assume "\<not> (\<exists>a \<in> set xs. character a = x \<and> task a = y) \<and> value_by_character xs x y = Fin 1"
      with M(1) show ?thesis by simp
    next
      assume "\<exists>a \<in> set xs. character a = x \<and> task a = y \<and>
        value_by_character xs x y = dadd (dsub (max_cost xs) (cost a)) (Fin 1)"
      then obtain a where a: "a \<in> set xs"
        "value_by_character xs x y = dadd (dsub (Fin M) (cost a)) (Fin 1)"
        using assms(2) by auto
      from a(1) assms(1) M(2) have "\<exists>c. cost a = Fin c \<and> 0 \<le> c" "real_of (cost a) \<le> M" by auto
      from value_entry_ok [OF this] show ?thesis by (simp only: a(2))
    qed
  qed
qed

lemma val_ok_by_task:
  assumes "\<forall>a \<in> set xs. \<exists>c. cost a = Fin c \<and> 0 \<le> c \<and> c \<le> DBL_MAX" and "max_cost xs = Fin M"
  shows "val_ok NX NY (value_by_task xs) M"
proof -
  from max_cost_fin [OF assms(1)] assms(2) have M: "0 \<le> M" "\<forall>a \<in> set xs. real_of (cost a) \<le> M"
    by auto
  show ?thesis
    unfolding val_ok_def
  proof (intro allI impI)
    fix x y
    from value_by_task_entry [of xs y x]
    show "is_fin (value_by_task xs x y) \<and> 1 \<le> real_of (value_by_task xs x y) \<and>
        real_of (value_by_task xs x y) \<le> M + 1"
    proof
      assume "\<not> (\<exists>a \<in> set xs. character a = y \<and> task a = x) \<and> value_by_task xs x y = Fin 1"
      with M(1) show ?thesis by simp
    next
      assume "\<exists>a \<in> set xs. character a = y \<and> task a = x \<and>
        value_by_task xs x y = dadd (dsub (max_cost xs) (cost a)) (Fin 1)"
      then obtain a where a: "a \<in> set xs"
        "value_by_task xs x y = dadd (dsub (Fin M) (cost a)) (Fin 1)"
        using assms(2) by auto
      from a(1) assms(1) M(2) have "\<exists>c. cost a = Fin c \<and> 0 \<le> c" "real_of (cost a) \<le> M" by auto
      from value_entry_ok [OF this] show ?thesis by (simp only: a(2))
    qed
  qed
qed

section \<open>What Optimize keeps\<close>

text \<open>Whether \<^verbatim>\<open>Optimize\<close> keeps an assignment depends on its character and its task
  alone.\<close>

lemma Optimize_selects:
  assumes "Optimize xs = Some (Inr out)"
  shows "\<exists>sel. mset out = filter_mset (\<lambda>a. sel (character a) (task a)) (mset xs)"
proof (cases "max_task xs > max_character xs")
  case True
  define st where
    "st = snd (projr (the (hungarian (max_character xs + 1) (max_task xs + 1)
       (value_by_character xs))))"
  from True assms have "out = filter_loop (\<lambda>a. task a \<noteq> xy st (character a)) xs 0"
    by (auto simp: Optimize_def st_def split: if_splits option.splits sum.splits)
  then have "mset out = filter_mset (\<lambda>a. task a = xy st (character a)) (mset xs)"
    by (simp add: mset_filter_loop)
  then show ?thesis
    by (intro exI [where x = "\<lambda>c t. t = xy st c"]) simp
next
  case False
  define st where
    "st = snd (projr (the (hungarian (max_task xs + 1) (max_character xs + 1)
       (value_by_task xs))))"
  from False assms have "out = filter_loop (\<lambda>a. task a \<noteq> yx st (character a)) xs 0"
    by (auto simp: Optimize_def st_def split: if_splits option.splits sum.splits)
  then have "mset out = filter_mset (\<lambda>a. task a = yx st (character a)) (mset xs)"
    by (simp add: mset_filter_loop)
  then show ?thesis
    by (intro exI [where x = "\<lambda>c t. t = yx st c"]) simp
qed

section \<open>Evaluation\<close>

text \<open>The equations that evaluate \<^verbatim>\<open>Optimize\<close> on a given vector.\<close>

lemmas eval_simps = Optimize_def max_character_def max_task_def max_cost_def value_by_character_def
  value_by_task_def hungarian_def init_state_def outer_loop.simps init_phase_def find_root_def
  main_cycle.simps bfs.simps bfs_scan.simps slack_scan.simps update_labels_def add_to_tree_def
  augment.simps for_loop.simps filter_loop.simps swap_pop_def eq_def std_max_def std_min_def
  dsub_def in_range_def DBL_MAX_def DBL_MIN_def Let_def

section \<open>The cost formula\<close>

text \<open>Rounding: the error of one operation, the doubles as fixed points, and the largest
  double below 1.\<close>

lemma powr_powi2: "(2::real) powr real_of_int k = 2 powi k"
  by (rule powr_real_of_int') simp_all

lemma floor_log2_iff:
  assumes "0 < \<bar>x\<bar>"
  shows "(\<lfloor>log 2 \<bar>x\<bar>\<rfloor> = e) = (2 powi e \<le> \<bar>x\<bar> \<and> \<bar>x\<bar> < 2 powi (e + 1))"
proof -
  have "1 < (2::real)" by simp
  from floor_log_eq_powr_iff [OF assms this, of e] show ?thesis
    unfolding powr_powi2 .
qed

lemma floor_log2_bounds:
  assumes "x \<noteq> 0"
  shows "2 powi \<lfloor>log 2 \<bar>x\<bar>\<rfloor> \<le> \<bar>x\<bar>" and "\<bar>x\<bar> < 2 powi (\<lfloor>log 2 \<bar>x\<bar>\<rfloor> + 1)"
proof -
  from assms have p: "0 < \<bar>x\<bar>" by simp
  from floor_log2_iff [OF p, of "\<lfloor>log 2 \<bar>x\<bar>\<rfloor>"]
  show "2 powi \<lfloor>log 2 \<bar>x\<bar>\<rfloor> \<le> \<bar>x\<bar>" and "\<bar>x\<bar> < 2 powi (\<lfloor>log 2 \<bar>x\<bar>\<rfloor> + 1)"
    by blast+
qed

lemma floor_log2_eq:
  assumes "2 powi e \<le> \<bar>x\<bar>" and "\<bar>x\<bar> < 2 powi (e + 1)"
  shows "\<lfloor>log 2 \<bar>x\<bar>\<rfloor> = e"
proof -
  have "(0::real) < 2 powi e" by (simp add: zero_less_power_int)
  with assms(1) have p: "0 < \<bar>x\<bar>" by linarith
  from floor_log2_iff [OF p, of e] assms show ?thesis by blast
qed

lemma quantum_pos: "0 < quantum x"
  by (simp add: quantum_def zero_less_power_int)

lemma exponent_normal:
  assumes "2 powi (- 1022) \<le> \<bar>x\<bar>"
  shows "exponent x = \<lfloor>log 2 \<bar>x\<bar>\<rfloor>"
proof -
  have "(0::real) < 2 powi (- 1022)" by (simp add: zero_less_power_int)
  with assms have nz: "x \<noteq> 0" by auto
  have "- 1022 \<le> \<lfloor>log 2 \<bar>x\<bar>\<rfloor>"
  proof (rule ccontr)
    assume "\<not> - 1022 \<le> \<lfloor>log 2 \<bar>x\<bar>\<rfloor>"
    then have "\<lfloor>log 2 \<bar>x\<bar>\<rfloor> + 1 \<le> - 1022" by linarith
    then have "(2::real) powi (\<lfloor>log 2 \<bar>x\<bar>\<rfloor> + 1) \<le> 2 powi (- 1022)"
      by (intro power_int_increasing) simp_all
    with floor_log2_bounds(2) [OF nz] assms show False by linarith
  qed
  then show ?thesis unfolding exponent_def by (rule max_absorb1)
qed

lemma quantum_le:
  assumes "2 powi (- 1022) \<le> \<bar>x\<bar>"
  shows "quantum x \<le> \<bar>x\<bar> * 2 powi (- 52)"
proof -
  have "(0::real) < 2 powi (- 1022)" by (simp add: zero_less_power_int)
  with assms have nz: "x \<noteq> 0" by auto
  have "quantum x = 2 powi (\<lfloor>log 2 \<bar>x\<bar>\<rfloor> + (- 52))"
    unfolding quantum_def exponent_normal [OF assms] by simp
  also have "\<dots> = 2 powi \<lfloor>log 2 \<bar>x\<bar>\<rfloor> * 2 powi (- 52)"
    by (rule power_int_add) simp
  also have "\<dots> \<le> \<bar>x\<bar> * 2 powi (- 52)"
    using floor_log2_bounds(1) [OF nz]
    by (rule mult_right_mono) (rule less_imp_le, rule zero_less_power_int, simp)
  finally show ?thesis .
qed

lemma rne_error: "\<bar>of_int (rne y) - y\<bar> \<le> 1 / 2"
proof -
  have "of_int \<lfloor>y\<rfloor> \<le> y" "y < of_int \<lfloor>y\<rfloor> + 1" by linarith+
  then show ?thesis unfolding rne_def by (auto simp: abs_le_iff)
qed

lemma rne_of_int: "rne (of_int j) = j"
  by (simp add: rne_def)

lemma round_double_normal:
  assumes lo: "2 powi (- 1022) \<le> x" and hi: "x \<le> 2 ^ 1023"
  shows "\<exists>v. round_double x = Fin v \<and> x - x / 2 ^ 53 \<le> v \<and> v \<le> x + x / 2 ^ 53"
proof -
  have "(0::real) < 2 powi (- 1022)" by (simp add: zero_less_power_int)
  with lo have x0: "0 < x" by linarith
  define q where "q = quantum x"
  define v where "v = of_int (rne (x / q)) * q"
  define u where "u = x / 2 ^ 53"
  have q0: "0 < q" unfolding q_def by (rule quantum_pos)
  have "q \<le> \<bar>x\<bar> * 2 powi (- 52)" unfolding q_def using lo x0 by (intro quantum_le) simp
  also have "\<dots> = 2 * u" using x0 by (simp add: u_def power_int_minus_divide)
  finally have q: "q \<le> 2 * u" .
  have "v - x = (of_int (rne (x / q)) - x / q) * q"
    using q0 by (simp add: v_def field_simps)
  then have "\<bar>v - x\<bar> = \<bar>of_int (rne (x / q)) - x / q\<bar> * q"
    using q0 by (simp add: abs_mult)
  also have "\<dots> \<le> 1 / 2 * q"
    using rne_error [of "x / q"] q0 by (intro mult_right_mono) simp_all
  also have "\<dots> \<le> u" using q by simp
  finally have e: "\<bar>v - x\<bar> \<le> u" .
  then have b: "x - u \<le> v" "v \<le> x + u" by linarith+
  have "u \<le> x" using x0 unfolding u_def by (simp add: field_simps)
  with b have v0: "0 \<le> v" by linarith
  have "u \<le> 2 ^ 1023 / 2 ^ 53" unfolding u_def using hi by (rule divide_right_mono) simp
  with b(2) hi have "v \<le> 2 ^ 1023 + 2 ^ 1023 / 2 ^ 53" by linarith
  also have "\<dots> < (2::real) ^ 1024" by simp
  finally have "v < 2 ^ 1024" .
  with v0 have "\<not> 2 ^ 1024 \<le> \<bar>v\<bar>" by simp
  with x0 have "round_double x = Fin v" unfolding round_double_def v_def q_def by simp
  with b show ?thesis unfolding u_def by blast
qed

definition normal_range :: "real \<Rightarrow> bool" where
  "normal_range x \<longleftrightarrow> 2 powi (- 1021) \<le> x \<and> x \<le> 2 ^ 1022"

lemma round_step:
  assumes y: "lo * X \<le> y" "y \<le> hi * X" and n: "normal_range X"
    and lo: "1 / 2 \<le> lo" and hi: "hi \<le> 2"
  shows "\<exists>v. round_double y = Fin v \<and> lo * (1 - 1 / 2 ^ 53) * X \<le> v \<and>
     v \<le> hi * (1 + 1 / 2 ^ 53) * X"
proof -
  from n have X: "2 powi (- 1021) \<le> X" "X \<le> 2 ^ 1022" by (simp_all add: normal_range_def)
  have "(0::real) < 2 powi (- 1021)" by (simp add: zero_less_power_int)
  with X have X0: "0 < X" by linarith
  have "(2::real) powi (- 1022) = 1 / 2 * 2 powi (- 1021)"
    by (simp add: power_int_minus_divide)
  also have "\<dots> \<le> 1 / 2 * X" using X(1) by simp
  also have "\<dots> \<le> lo * X" using lo X0 by (intro mult_right_mono) simp_all
  finally have ylo: "2 powi (- 1022) \<le> y" using y(1) by linarith
  have "hi * X \<le> 2 * X" using hi X0 by (intro mult_right_mono) simp_all
  with y(2) have "y \<le> 2 * X" by linarith
  also have "\<dots> \<le> 2 * 2 ^ 1022" using X(2) by simp
  also have "\<dots> = (2::real) ^ 1023" by simp
  finally have yhi: "y \<le> 2 ^ 1023" .
  from round_double_normal [OF ylo yhi] obtain v where
    v: "round_double y = Fin v" "y - y / 2 ^ 53 \<le> v" "v \<le> y + y / 2 ^ 53" by blast
  have "lo * (1 - 1 / 2 ^ 53) * X = (lo * X) * (1 - 1 / 2 ^ 53)" by simp
  also have "\<dots> \<le> y * (1 - 1 / 2 ^ 53)" using y(1) by (intro mult_right_mono) simp_all
  also have "\<dots> = y - y / 2 ^ 53" by (simp add: algebra_simps)
  finally have 1: "lo * (1 - 1 / 2 ^ 53) * X \<le> v" using v(2) by linarith
  have "y + y / 2 ^ 53 = y * (1 + 1 / 2 ^ 53)" by (simp add: algebra_simps)
  also have "\<dots> \<le> (hi * X) * (1 + 1 / 2 ^ 53)" using y(2) by (intro mult_right_mono) simp_all
  also have "\<dots> = hi * (1 + 1 / 2 ^ 53) * X" by simp
  finally have 2: "v \<le> hi * (1 + 1 / 2 ^ 53) * X" using v(3) by linarith
  from v(1) 1 2 show ?thesis by blast
qed

lemma numeric_bounds:
  "(1::real) / 2 \<le> 1" "(1::real) \<le> 2"
  "(1::real) / 2 \<le> (1 - 1 / 2 ^ 53) / (1 + 1 / 2 ^ 53)"
  "((1::real) + 1 / 2 ^ 53) / (1 - 1 / 2 ^ 53) \<le> 2"
  "(1::real) / 2 \<le> (1 - 1 / 2 ^ 53) / (1 + 1 / 2 ^ 53) * (1 - 1 / 2 ^ 53)"
  "((1::real) + 1 / 2 ^ 53) / (1 - 1 / 2 ^ 53) * (1 + 1 / 2 ^ 53) \<le> 2"
  "(1::real) - 5 / 2 ^ 53 \<le> (1 - 1 / 2 ^ 53) / (1 + 1 / 2 ^ 53) * (1 - 1 / 2 ^ 53) * (1 - 1 / 2 ^ 53)"
  "((1::real) + 1 / 2 ^ 53) / (1 - 1 / 2 ^ 53) * (1 + 1 / 2 ^ 53) * (1 + 1 / 2 ^ 53) \<le> 1 + 5 / 2 ^ 53"
  by simp_all

lemma ComputeCost_error:
  fixes t w r p :: real
  assumes r: "0 \<le> r" "r < 1" and p: "0 < p"
    and d0: "2 powi (- 1021) \<le> 1 - r"
    and A: "normal_range (t + w)"
    and E1: "normal_range ((t + w) / (1 - r))"
    and E: "normal_range ((t + w) / ((1 - r) * p))"
  shows "\<exists>v. ComputeCost (Fin t) (Fin w) (Fin r) (Fin p) = Fin v \<and>
     \<bar>v - (t + w) / ((1 - r) * p)\<bar> \<le> 5 / 2 ^ 53 * ((t + w) / ((1 - r) * p))"
proof -
  define a where "a = t + w"
  define b where "b = 1 - r"
  define e1 where "e1 = a / b"
  define e where "e = a / (b * p)"
  define l where "l = (1::real) - 1 / 2 ^ 53"
  define h where "h = (1::real) + 1 / 2 ^ 53"
  have nb: "1 / 2 \<le> l / h" "h / l \<le> 2" "1 / 2 \<le> l / h * l" "h / l * h \<le> 2"
    "1 - 5 / 2 ^ 53 \<le> l / h * l * l" "h / l * h * h \<le> 1 + 5 / 2 ^ 53"
    and lh: "0 < l" "0 < h" "1 / 2 \<le> l" "h \<le> 2"
    unfolding l_def h_def by simp_all
  have b0: "0 < b" using r by (simp add: b_def)
  have B: "normal_range b"
    using d0 r unfolding normal_range_def b_def by simp
  from A have A': "normal_range a" by (simp add: a_def)
  have "(0::real) < 2 powi (- 1021)" by (simp add: zero_less_power_int)
  with A' have a0: "0 < a" unfolding normal_range_def by linarith
  from E1 have E1': "normal_range e1" by (simp add: e1_def a_def b_def)
  from E have E': "normal_range e" by (simp add: e_def a_def b_def)
  have e10: "0 < e1" using a0 b0 by (simp add: e1_def)
  have e0: "0 < e" using a0 b0 p by (simp add: e_def)
  text \<open>The sum and the difference.\<close>
  have "\<exists>v. round_double a = Fin v \<and> 1 * (1 - 1 / 2 ^ 53) * a \<le> v \<and> v \<le> 1 * (1 + 1 / 2 ^ 53) * a"
    by (rule round_step [OF _ _ A']) simp_all
  then obtain s where s: "round_double a = Fin s" "l * a \<le> s" "s \<le> h * a"
    unfolding l_def h_def by auto
  have "\<exists>v. round_double b = Fin v \<and> 1 * (1 - 1 / 2 ^ 53) * b \<le> v \<and> v \<le> 1 * (1 + 1 / 2 ^ 53) * b"
    by (rule round_step [OF _ _ B]) simp_all
  then obtain d where d: "round_double b = Fin d" "l * b \<le> d" "d \<le> h * b"
    unfolding l_def h_def by auto
  have d_pos: "0 < d" using d(2) lh(1) b0 by (smt (verit) mult_pos_pos)
  have s_pos: "0 < s" using s(2) lh(1) a0 by (smt (verit) mult_pos_pos)
  text \<open>The first quotient.\<close>
  have "l * a / (h * b) \<le> s / d"
    using s(2) d(3) d_pos s_pos by (intro frac_le) simp_all
  moreover have "l * a / (h * b) = l / h * e1" by (simp add: e1_def)
  ultimately have q1: "l / h * e1 \<le> s / d" by simp
  have "0 < l * b" "0 < h * a" using lh(1,2) a0 b0 by simp_all
  then have "s / d \<le> h * a / (l * b)"
    using s(3) d(2) by (intro frac_le) simp_all
  moreover have "h * a / (l * b) = h / l * e1" by (simp add: e1_def)
  ultimately have q2: "s / d \<le> h / l * e1" by simp
  from round_step [OF q1 q2 E1' nb(1,2)] obtain c1 where
    c1: "round_double (s / d) = Fin c1" "l / h * l * e1 \<le> c1" "c1 \<le> h / l * h * e1"
    unfolding l_def h_def by blast
  text \<open>The second quotient.\<close>
  have ee: "e = e1 / p" by (simp add: e_def e1_def)
  have "l / h * l * e1 / p \<le> c1 / p" using c1(2) p by (intro divide_right_mono) simp_all
  then have q3: "l / h * l * e \<le> c1 / p" by (simp add: ee)
  have "c1 / p \<le> h / l * h * e1 / p" using c1(3) p by (intro divide_right_mono) simp_all
  then have q4: "c1 / p \<le> h / l * h * e" by (simp add: ee)
  from round_step [OF q3 q4 E' nb(3,4)] obtain c where
    c: "round_double (c1 / p) = Fin c" "l / h * l * l * e \<le> c" "c \<le> h / l * h * h * e"
    unfolding l_def h_def by blast
  define g where "g = 5 / 2 ^ 53 * e"
  have gg: "(1 - k) * e = e - k * e" "(1 + k) * e = e + k * e" for k :: real
    by (simp_all add: algebra_simps)
  have g1: "(1 - 5 / 2 ^ 53) * e = e - g" unfolding g_def by (rule gg)
  have g2: "(1 + 5 / 2 ^ 53) * e = e + g" unfolding g_def by (rule gg)
  have "(1 - 5 / 2 ^ 53) * e \<le> l / h * l * l * e"
    using nb(5) e0 by (intro mult_right_mono) simp_all
  with c(2) g1 have lo: "e - g \<le> c" by linarith
  have "h / l * h * h * e \<le> (1 + 5 / 2 ^ 53) * e"
    using nb(6) e0 by (intro mult_right_mono) simp_all
  with c(3) g2 have hi: "c \<le> e + g" by linarith
  from lo hi have "\<bar>c - e\<bar> \<le> g" by linarith
  then have err: "\<bar>c - e\<bar> \<le> 5 / 2 ^ 53 * e" unfolding g_def .
  have "ComputeCost (Fin t) (Fin w) (Fin r) (Fin p) = Fin c"
    using r p d_pos s d c1 c
    by (simp add: ComputeCost_def fsub_def a_def [symmetric] b_def [symmetric])
  with err show ?thesis unfolding e_def a_def b_def by blast
qed

definition is_double :: "real \<Rightarrow> bool" where
  "is_double x \<longleftrightarrow> round_double x = Fin x"

lemma exponent_ge: "- 1022 \<le> exponent x"
  by (simp add: exponent_def)

lemma exponent_bound:
  assumes "x \<noteq> 0"
  shows "\<bar>x\<bar> < 2 powi (exponent x + 1)"
proof -
  have "\<lfloor>log 2 \<bar>x\<bar>\<rfloor> + 1 \<le> exponent x + 1" by (simp add: exponent_def)
  then have "(2::real) powi (\<lfloor>log 2 \<bar>x\<bar>\<rfloor> + 1) \<le> 2 powi (exponent x + 1)"
    by (intro power_int_increasing) simp_all
  with floor_log2_bounds(2) [OF assms] show ?thesis by linarith
qed

lemma powi2_less_imp:
  assumes "(2::real) powi a < 2 powi b"
  shows "a < b"
proof (rule ccontr)
  assume "\<not> a < b"
  then have "b \<le> a" by simp
  then have "(2::real) powi b \<le> 2 powi a" by (intro power_int_increasing) simp_all
  with assms show False by simp
qed

lemma round_double_repr:
  assumes m: "\<bar>m\<bar> < 2 ^ 53" and k: "- 1074 \<le> k"
    and b: "\<bar>of_int m * 2 powi k\<bar> < (2::real) ^ 1024"
  shows "round_double (of_int m * 2 powi k) = Fin (of_int m * 2 powi k)"
proof (cases "m = 0")
  case True
  then show ?thesis by (simp add: round_double_def)
next
  case False
  define v :: real where "v = of_int m * 2 powi k"
  have p: "(0::real) < 2 powi k" by (simp add: zero_less_power_int)
  with False have v0: "v \<noteq> 0" by (simp add: v_def)
  have "\<bar>v\<bar> = of_int \<bar>m\<bar> * 2 powi k" using p by (simp add: v_def abs_mult)
  also have "\<dots> < 2 ^ 53 * 2 powi k"
  proof (rule mult_strict_right_mono [OF _ p])
    from m have "real_of_int \<bar>m\<bar> < real_of_int (2 ^ 53)" by (simp only: of_int_less_iff)
    then show "real_of_int \<bar>m\<bar> < 2 ^ 53" by simp
  qed
  also have "\<dots> = 2 powi (53 + k)"
    by (subst power_int_add) (simp_all add: power_int_def)
  finally have "\<bar>v\<bar> < 2 powi (53 + k)" .
  with floor_log2_bounds(1) [OF v0] have "(2::real) powi \<lfloor>log 2 \<bar>v\<bar>\<rfloor> < 2 powi (53 + k)"
    by linarith
  then have "\<lfloor>log 2 \<bar>v\<bar>\<rfloor> < 53 + k" by (rule powi2_less_imp)
  with k have le: "exponent v - 52 \<le> k" by (simp add: exponent_def)
  define n where "n = nat (k - (exponent v - 52))"
  have kq: "k = (exponent v - 52) + int n" using le by (simp add: n_def)
  define qv where "qv = quantum v"
  have qv0: "0 < qv" unfolding qv_def by (rule quantum_pos)
  have "(2::real) powi k = 2 powi (exponent v - 52) * 2 powi int n"
    by (subst kq, rule power_int_add) simp
  then have pk: "(2::real) powi k = qv * 2 ^ n"
    by (simp add: quantum_def qv_def)
  have vq: "v = of_int m * (qv * 2 ^ n)"
    unfolding pk [symmetric] by (rule v_def)
  have "v / qv = of_int m * 2 ^ n"
    using qv0 by (simp add: vq)
  also have "\<dots> = of_int (m * 2 ^ n)" by simp
  finally have q: "v / qv = of_int (m * 2 ^ n)" .
  have "of_int (rne (v / qv)) * qv = of_int (m * 2 ^ n) * qv"
    by (simp only: q rne_of_int)
  also have "\<dots> = of_int m * (qv * 2 ^ n)" by simp
  also have "\<dots> = v" by (rule vq [symmetric])
  finally have r: "of_int (rne (v / quantum v)) * quantum v = v" unfolding qv_def .
  from b have "\<not> 2 ^ 1024 \<le> \<bar>v\<bar>" by (simp add: v_def)
  with v0 r have "round_double v = Fin v" by (simp add: round_double_def)
  then show ?thesis by (simp add: v_def)
qed

lemma rne_bounds: "\<lfloor>y\<rfloor> \<le> rne y" "rne y \<le> \<lfloor>y\<rfloor> + 1"
  by (simp_all add: rne_def)

lemma round_double_idem:
  assumes "round_double x = Fin v"
  shows "round_double v = Fin v"
proof (cases "x = 0")
  case True
  with assms have "v = 0" by (simp add: round_double_def)
  then show ?thesis by (simp add: round_double_def)
next
  case False
  define k where "k = exponent x - 52"
  define j where "j = rne (x / quantum x)"
  have q: "quantum x = 2 powi k" by (simp add: quantum_def k_def)
  have k: "- 1074 \<le> k" using exponent_ge [of x] by (simp add: k_def)
  from assms False have v: "v = of_int j * 2 powi k" and b: "\<bar>v\<bar> < 2 ^ 1024"
    by (simp_all add: round_double_def j_def q split: if_splits)
  have p: "(0::real) < 2 powi k" by (simp add: zero_less_power_int)
  have "exponent x + 1 = 53 + k" by (simp add: k_def)
  then have "(2::real) powi (exponent x + 1) = 2 powi (53 + k)" by (rule arg_cong)
  also have "\<dots> = 2 ^ 53 * 2 powi k" by (subst power_int_add) (simp_all add: power_int_def)
  finally have "\<bar>x\<bar> < 2 ^ 53 * 2 powi k" using exponent_bound [OF False] by simp
  then have "\<bar>x\<bar> / 2 powi k < 2 ^ 53" using p by (simp add: field_simps)
  then have "\<bar>x / 2 powi k\<bar> < 2 ^ 53" using p by simp
  then have y: "x / 2 powi k < 2 ^ 53" "- (2 ^ 53) < x / 2 powi k" by linarith+
  have fl1: "\<lfloor>x / 2 powi k\<rfloor> < 2 ^ 53" using y(1) by (subst floor_less_iff) simp
  have j1: "j \<le> 2 ^ 53"
    using rne_bounds(2) [of "x / 2 powi k"] fl1 unfolding j_def q by linarith
  have fl2: "- (2 ^ 53) \<le> \<lfloor>x / 2 powi k\<rfloor>" using y(2) by (subst le_floor_iff) simp
  have j2: "- (2 ^ 53) \<le> j"
    using rne_bounds(1) [of "x / 2 powi k"] fl2 unfolding j_def q by linarith
  show ?thesis
  proof (cases "\<bar>j\<bar> < 2 ^ 53")
    case True
    from round_double_repr [OF True k] b show ?thesis by (simp add: v)
  next
    case False
    with j1 j2 have "j = 2 ^ 53 \<or> j = - (2 ^ 53)" by linarith
    then have "\<exists>m. \<bar>m\<bar> < 2 ^ 53 \<and> j = 2 * m"
    proof
      assume "j = 2 ^ 53"
      then have "\<bar>2 ^ 52 :: int\<bar> < 2 ^ 53 \<and> j = 2 * 2 ^ 52" by simp
      then show ?thesis by blast
    next
      assume "j = - (2 ^ 53)"
      then have "\<bar>- (2 ^ 52) :: int\<bar> < 2 ^ 53 \<and> j = 2 * (- (2 ^ 52))" by simp
      then show ?thesis by blast
    qed
    then obtain m :: int where m: "\<bar>m\<bar> < 2 ^ 53" "j = 2 * m" by blast
    have "(2::real) powi (k + 1) = 2 powi k * 2" by (rule power_int_add_1) simp
    then have v': "v = of_int m * 2 powi (k + 1)" by (simp add: v m(2))
    from k have k': "- 1074 \<le> k + 1" by simp
    from round_double_repr [OF m(1) k'] b show ?thesis by (simp add: v')
  qed
qed

lemma round_double_1: "round_double 1 = Fin 1"
  using round_double_repr [of 1 0] by simp

lemma round_double_half: "round_double (1 / 2) = Fin (1 / 2)"
  using round_double_repr [of 1 "- 1"] by simp

lemma fdiv_one:
  assumes "round_double x = X"
  shows "fdiv X (Fin 1) = X"
proof (cases X)
  case (Fin v)
  with assms round_double_idem [of x v] show ?thesis by simp
qed simp_all

lemma below_one:
  assumes d: "is_double r" and r: "r < 1"
  shows "r \<le> 1 - 1 / 2 ^ 53"
proof (cases "1 / 2 \<le> r")
  case False
  then show ?thesis by simp
next
  case True
  have "\<lfloor>log 2 \<bar>r\<bar>\<rfloor> = - 1"
    using True r by (intro floor_log2_eq) simp_all
  then have q: "quantum r = 2 powi (- 53)" by (simp add: quantum_def exponent_def)
  define j where "j = rne (r / quantum r)"
  from True have "r \<noteq> 0" by auto
  with d have e: "r = of_int j * 2 powi (- 53)"
    by (simp add: is_double_def round_double_def j_def q split: if_splits)
  then have e': "r = of_int j / 2 ^ 53" by (simp add: power_int_minus_divide)
  with r have "real_of_int j < 2 ^ 53" by (simp add: field_simps)
  then have "real_of_int j < real_of_int (2 ^ 53)" by simp
  then have "j < 2 ^ 53" by (simp only: of_int_less_iff)
  then have "j \<le> 2 ^ 53 - 1" by simp
  then have "real_of_int j \<le> real_of_int (2 ^ 53 - 1)" by (simp only: of_int_le_iff)
  then have "real_of_int j \<le> 2 ^ 53 - 1" by simp
  then show ?thesis unfolding e' by (simp add: field_simps)
qed

lemma round_double_overflow: "round_double (2 ^ 1024) = PInf"
proof -
  have fl: "\<lfloor>log 2 \<bar>2 ^ 1024 :: real\<bar>\<rfloor> = 1024"
    by (rule floor_log2_eq) (simp_all add: power_int_def)
  have q: "quantum (2 ^ 1024) = 2 powi 972"
    unfolding quantum_def exponent_def fl by simp
  have "(2::real) ^ 1024 / 2 powi 972 = of_int (2 ^ 52)" by (simp add: power_int_def)
  then have "rne ((2::real) ^ 1024 / 2 powi 972) = 2 ^ 52" by (simp only: rne_of_int)
  then have r: "of_int (rne ((2::real) ^ 1024 / 2 powi 972)) * 2 powi 972 = (2::real) ^ 1024"
    by (simp add: power_int_def)
  show ?thesis unfolding round_double_def q r by simp
qed

lemma ComputeCost_degenerate:
  "dle (Fin 1) retry_risk \<or> dle priority (Fin 0) \<Longrightarrow>
   ComputeCost travel_time work_time retry_risk priority = PInf"
  by (simp add: ComputeCost_def)

lemma ComputeCost_risk_0:
  "ComputeCost (Fin t) (Fin w) (Fin 0) (Fin 1) = fadd (Fin t) (Fin w)"
proof -
  have "fdiv (fdiv (round_double (t + w)) (Fin 1)) (Fin 1) = round_double (t + w)"
    by (simp add: fdiv_one [OF refl])
  then show ?thesis by (simp add: ComputeCost_def fsub_def round_double_1)
qed

lemma ComputeCost_risk_half:
  "ComputeCost (Fin t) (Fin w) (Fin (1 / 2)) (Fin 1)
     = (case fadd (Fin t) (Fin w) of Fin s \<Rightarrow> round_double (2 * s) | z \<Rightarrow> z)"
proof -
  have h: "fsub (Fin 1) (Fin (1 / 2)) = Fin (1 / 2)"
    using round_double_half by (simp add: fsub_def)
  have "fdiv (fdiv X (Fin (1 / 2))) (Fin 1) = (case X of Fin s \<Rightarrow> round_double (2 * s) | z \<Rightarrow> z)"
    for X
  proof (cases X)
    case (Fin s)
    then show ?thesis by (simp add: fdiv_one [OF refl] mult.commute)
  qed simp_all
  then show ?thesis by (simp add: ComputeCost_def h)
qed

text \<open>
  Claim C4 says that \<^verbatim>\<open>ComputeCost\<close> returns
  \<open>(travel_time + work_time) / ((1 - retry_risk) * priority)\<close> on its whole domain. The
  code computes in doubles: for a travel time of \<open>2\<^sup>1\<^sup>0\<^sup>2\<^sup>3\<close>, no work time, no risk and the
  priority \<open>1/2\<close> the quotient is \<open>2\<^sup>1\<^sup>0\<^sup>2\<^sup>4\<close>, which is no double, and the result is
  positive infinity.
\<close>

theorem ComputeCost_overflow:
  "ComputeCost (Fin (2 ^ 1023)) (Fin 0) (Fin 0) (Fin (1 / 2)) = PInf
   \<and> ComputeCost (Fin (2 ^ 1023)) (Fin 0) (Fin 0) (Fin (1 / 2))
       \<noteq> Fin ((2 ^ 1023 + 0) / ((1 - 0) * (1 / 2)))"
proof -
  have a: "round_double (2 ^ 1023) = Fin (2 ^ 1023)"
    using round_double_repr [of 1 1023] by (simp add: power_int_def)
  have 1: "fadd (Fin (2 ^ 1023)) (Fin 0) = Fin (2 ^ 1023)"
    by (simp only: fadd.simps add_0_right a)
  have 2: "fsub (Fin 1) (Fin 0) = Fin 1" by (simp add: fsub_def round_double_1)
  have 3: "fdiv (Fin (2 ^ 1023)) (Fin 1) = Fin (2 ^ 1023)" using a by (rule fdiv_one)
  have e: "(2::real) ^ 1023 / (1 / 2) = 2 ^ 1024" by simp
  have "fdiv (Fin (2 ^ 1023)) (Fin (1 / 2)) = round_double (2 ^ 1023 / (1 / 2))" by simp
  also have "\<dots> = round_double (2 ^ 1024)" by (simp only: e)
  also have "\<dots> = PInf" by (rule round_double_overflow)
  finally have 4: "fdiv (Fin (2 ^ 1023)) (Fin (1 / 2)) = PInf" .
  have 5: "(dle (Fin 1) (Fin 0) \<or> dle (Fin (1 / 2)) (Fin 0)) = False" by simp
  have "ComputeCost (Fin (2 ^ 1023)) (Fin 0) (Fin 0) (Fin (1 / 2)) = PInf"
    by (simp only: ComputeCost_def 5 if_False 1 2 3 4)
  then show ?thesis by simp
qed

text \<open>
  Claim C4 as amended. For a retry risk of at least 1 or a priority of at most 0
  \<^verbatim>\<open>ComputeCost\<close> returns positive infinity, whatever the other arguments are (the
  function has no error result); in particular for the retry risk 1 and for the priority 0.
  \<open>ComputeCost t w 0 1\<close> is the double sum of \<open>t\<close> and \<open>w\<close>, and \<open>ComputeCost t w 0.5 1\<close> is
  twice that sum, rounded. For a retry risk in \<open>[0, 1)\<close> that is a double and a positive
  priority the result is the quotient \<open>(t + w) / ((1 - r) * p)\<close> up to the relative error
  \<open>5 / 2\<^sup>5\<^sup>3\<close> of three roundings and one rounded divisor, as long as the sum and the two
  quotients stay in the range of the normal doubles (with a factor 2 to spare); outside
  that range the result can be infinite.
\<close>

theorem ComputeCost_double:
  fixes t w r p :: real
  shows "(dle (Fin 1) retry_risk \<or> dle priority (Fin 0) \<longrightarrow>
            ComputeCost travel_time work_time retry_risk priority = PInf)
    \<and> ComputeCost travel_time work_time (Fin 1) priority = PInf
    \<and> ComputeCost travel_time work_time retry_risk (Fin 0) = PInf
    \<and> ComputeCost (Fin t) (Fin w) (Fin 0) (Fin 1) = fadd (Fin t) (Fin w)
    \<and> ComputeCost (Fin t) (Fin w) (Fin (1 / 2)) (Fin 1)
        = (case fadd (Fin t) (Fin w) of Fin s \<Rightarrow> round_double (2 * s) | z \<Rightarrow> z)
    \<and> (0 \<le> r \<and> r < 1 \<and> is_double r \<and> 0 < p \<and> normal_range (t + w) \<and>
        normal_range ((t + w) / (1 - r)) \<and> normal_range ((t + w) / ((1 - r) * p)) \<longrightarrow>
        (\<exists>v. ComputeCost (Fin t) (Fin w) (Fin r) (Fin p) = Fin v \<and>
           \<bar>v - (t + w) / ((1 - r) * p)\<bar> \<le> 5 / 2 ^ 53 * ((t + w) / ((1 - r) * p))))"
proof (intro conjI impI)
  assume "dle (Fin 1) retry_risk \<or> dle priority (Fin 0)"
  then show "ComputeCost travel_time work_time retry_risk priority = PInf"
    by (rule ComputeCost_degenerate)
next
  show "ComputeCost travel_time work_time (Fin 1) priority = PInf"
    by (rule ComputeCost_degenerate) simp
next
  show "ComputeCost travel_time work_time retry_risk (Fin 0) = PInf"
    by (rule ComputeCost_degenerate) simp
next
  show "ComputeCost (Fin t) (Fin w) (Fin 0) (Fin 1) = fadd (Fin t) (Fin w)"
    by (rule ComputeCost_risk_0)
next
  show "ComputeCost (Fin t) (Fin w) (Fin (1 / 2)) (Fin 1)
        = (case fadd (Fin t) (Fin w) of Fin s \<Rightarrow> round_double (2 * s) | z \<Rightarrow> z)"
    by (rule ComputeCost_risk_half)
next
  assume a: "0 \<le> r \<and> r < 1 \<and> is_double r \<and> 0 < p \<and> normal_range (t + w) \<and>
        normal_range ((t + w) / (1 - r)) \<and> normal_range ((t + w) / ((1 - r) * p))"
  then have "r \<le> 1 - 1 / 2 ^ 53" using below_one by blast
  then have "1 / 2 ^ 53 \<le> 1 - r" by simp
  moreover have "(2::real) powi (- 1021) \<le> 1 / 2 ^ 53" by (simp add: power_int_minus_divide)
  ultimately have "2 powi (- 1021) \<le> 1 - r" by linarith
  with a show "\<exists>v. ComputeCost (Fin t) (Fin w) (Fin r) (Fin p) = Fin v \<and>
           \<bar>v - (t + w) / ((1 - r) * p)\<bar> \<le> 5 / 2 ^ 53 * ((t + w) / ((1 - r) * p))"
    by (intro ComputeCost_error) simp_all
qed

theorem ComputeCost_double_witness:
  "ComputeCost (Fin 3) (Fin 4) (Fin 1) (Fin 2) = PInf
   \<and> (\<exists>v. ComputeCost (Fin 3) (Fin 4) (Fin (1 / 2)) (Fin 2) = Fin v \<and> \<bar>v - 7\<bar> \<le> 35 / 2 ^ 53)"
proof -
  have d: "is_double (1 / 2)" by (simp add: is_double_def round_double_half)
  have n: "normal_range 7" "normal_range 14"
    by (simp_all add: normal_range_def power_int_minus_divide)
  from ComputeCost_double [of "Fin 1" "Fin 2" "Fin 3" "Fin 4" 3 4 "1 / 2" 2]
  have 1: "ComputeCost (Fin 3) (Fin 4) (Fin 1) (Fin 2) = PInf" by simp
  from ComputeCost_double [of "Fin 1" "Fin 2" "Fin 3" "Fin 4" 3 4 "1 / 2" 2] d n
  have 2: "\<exists>v. ComputeCost (Fin 3) (Fin 4) (Fin (1 / 2)) (Fin 2) = Fin v \<and> \<bar>v - 7\<bar> \<le> 35 / 2 ^ 53"
    by simp
  from 1 2 show ?thesis by (rule conjI)
qed

section \<open>The candidate filter\<close>

text \<open>
  The filter as the specification words it: the candidates sorted by ascending cost are
  walked in that order, and a pairing is retained exactly when the counters of its character
  and of its task are both below their limits, which then both go up by one.
\<close>

fun spec_walk ::
  "int \<Rightarrow> int \<Rightarrow> (int \<Rightarrow> int) \<Rightarrow> (int \<Rightarrow> int) \<Rightarrow> Assignment list \<Rightarrow> Assignment list" where
  "spec_walk k_char k_task char_count task_count [] = []"
| "spec_walk k_char k_task char_count task_count (a # as) =
     (if char_count (character a) < k_char \<and> task_count (task a) < k_task
      then a # spec_walk k_char k_task
                 (char_count(character a := char_count (character a) + 1))
                 (task_count(task a := task_count (task a) + 1)) as
      else spec_walk k_char k_task char_count task_count as)"

definition limit_assignments_spec :: "Assignment list \<Rightarrow> int \<Rightarrow> int \<Rightarrow> Assignment list" where
  "limit_assignments_spec candidates k_char k_task =
     spec_walk k_char k_task (\<lambda>_. 0) (\<lambda>_. 0) (sort_cost candidates)"

text \<open>
  Claim C5 says that \<^verbatim>\<open>LimitAssignments\<close> retains exactly the pairings of that walk, the
  cheapest ones. The code removes a rejected element by swapping the last element of the
  vector, the most expensive one left, into its place, and visits that element next, before
  the cheaper ones that follow. With one pairing allowed per character and per task, the
  vector below ends with the pairing of cost 4 for character 1, while the walk in ascending
  order retains the pairing of cost 3.
\<close>

theorem LimitAssignments_walk_order:
  "LimitAssignments
     [\<lparr>character = 0, task = 0, cost = Fin 1\<rparr>, \<lparr>character = 0, task = 1, cost = Fin 2\<rparr>,
      \<lparr>character = 1, task = 2, cost = Fin 3\<rparr>, \<lparr>character = 1, task = 3, cost = Fin 4\<rparr>] 1 1
     = Inr [\<lparr>character = 0, task = 0, cost = Fin 1\<rparr>, \<lparr>character = 1, task = 3, cost = Fin 4\<rparr>]
   \<and> limit_assignments_spec
     [\<lparr>character = 0, task = 0, cost = Fin 1\<rparr>, \<lparr>character = 0, task = 1, cost = Fin 2\<rparr>,
      \<lparr>character = 1, task = 2, cost = Fin 3\<rparr>, \<lparr>character = 1, task = 3, cost = Fin 4\<rparr>] 1 1
     = [\<lparr>character = 0, task = 0, cost = Fin 1\<rparr>, \<lparr>character = 1, task = 2, cost = Fin 3\<rparr>]"
  by (simp add: LimitAssignments_def limit_assignments_spec_def sort_cost_def limit_loop.simps
      swap_pop_def)

text \<open>
  Claim C6. For identifiers that are not negative and positive limits,
  \<^verbatim>\<open>LimitAssignments\<close> returns, and in the vector it leaves no character occurs in more
  than \<open>limit_per_character\<close> pairings and no task in more than \<open>limit_per_task\<close>.
\<close>

theorem LimitAssignments_cap:
  assumes "\<forall>a \<in> set assignments. 0 \<le> character a \<and> 0 \<le> task a"
    and "0 < limit_per_character" and "0 < limit_per_task"
  shows "\<exists>out. LimitAssignments assignments limit_per_character limit_per_task = Inr out
     \<and> (\<forall>c. int (count_character c out) \<le> limit_per_character)
     \<and> (\<forall>t. int (count_task t out) \<le> limit_per_task)"
proof -
  have "\<forall>a \<in> set (sort_cost assignments). 0 \<le> character a \<and> 0 \<le> task a"
    using assms(1) by (metis mset_sort_cost set_mset_mset)
  then obtain out where
    out: "limit_loop limit_per_character limit_per_task (sort_cost assignments) 0 (\<lambda>_. 0) (\<lambda>_. 0)
            = Inr out"
    using limit_loop_returns by blast
  have "(\<forall>c. int (count_character c out) \<le> limit_per_character)
      \<and> (\<forall>t. int (count_task t out) \<le> limit_per_task)"
    by (rule limit_loop_cap [OF out])
       (use assms(2,3) in \<open>simp_all add: count_character_def count_task_def\<close>)
  with out show ?thesis by (simp add: LimitAssignments_def)
qed

theorem LimitAssignments_cap_witness:
  "\<exists>out. LimitAssignments
       [\<lparr>character = 0, task = 0, cost = Fin 1\<rparr>, \<lparr>character = 0, task = 1, cost = Fin 2\<rparr>,
        \<lparr>character = 1, task = 0, cost = Fin 3\<rparr>] 1 2 = Inr out
     \<and> (\<forall>c. int (count_character c out) \<le> 1) \<and> (\<forall>t. int (count_task t out) \<le> 2)"
  using LimitAssignments_cap [of
      "[\<lparr>character = 0, task = 0, cost = Fin 1\<rparr>, \<lparr>character = 0, task = 1, cost = Fin 2\<rparr>,
        \<lparr>character = 1, task = 0, cost = Fin 3\<rparr>]" 1 2]
  by simp

text \<open>
  Claim C10. Whatever \<^verbatim>\<open>Optimize\<close> or \<^verbatim>\<open>LimitAssignments\<close> leaves in the vector was
  in the input, with the same character, task and cost and at most as often: the two
  functions remove and reorder elements and change or add none.
\<close>

theorem outputs_from_input:
  "(Optimize assignments = Some (Inr out) \<longrightarrow> mset out \<subseteq># mset assignments)
   \<and> (LimitAssignments assignments limit_per_character limit_per_task = Inr out' \<longrightarrow>
        mset out' \<subseteq># mset assignments)"
proof (intro conjI impI)
  assume "Optimize assignments = Some (Inr out)"
  from Optimize_selects [OF this] show "mset out \<subseteq># mset assignments"
    by auto
next
  assume "LimitAssignments assignments limit_per_character limit_per_task = Inr out'"
  then have "mset out' \<subseteq># mset (sort_cost assignments)"
    unfolding LimitAssignments_def by (rule limit_loop_mset)
  then show "mset out' \<subseteq># mset assignments"
    by (simp add: mset_sort_cost)
qed

theorem outputs_from_input_witness:
  "Optimize [\<lparr>character = 0, task = 0, cost = Fin 10\<rparr>, \<lparr>character = 1, task = 0, cost = Fin 15\<rparr>,
             \<lparr>character = 0, task = 1, cost = Fin 20\<rparr>, \<lparr>character = 1, task = 1, cost = Fin 10\<rparr>]
     = Some (Inr [\<lparr>character = 0, task = 0, cost = Fin 10\<rparr>,
                  \<lparr>character = 1, task = 1, cost = Fin 10\<rparr>])
   \<and> mset [\<lparr>character = 0, task = 0, cost = Fin 10\<rparr>, \<lparr>character = 1, task = 1, cost = Fin 10\<rparr>]
     \<subseteq># mset [\<lparr>character = 0, task = 0, cost = Fin 10\<rparr>, \<lparr>character = 1, task = 0, cost = Fin 15\<rparr>,
              \<lparr>character = 0, task = 1, cost = Fin 20\<rparr>, \<lparr>character = 1, task = 1, cost = Fin 10\<rparr>]
   \<and> LimitAssignments
           [\<lparr>character = 0, task = 0, cost = Fin 10\<rparr>, \<lparr>character = 1, task = 0, cost = Fin 15\<rparr>,
            \<lparr>character = 0, task = 1, cost = Fin 20\<rparr>] 1 1
     = Inr [\<lparr>character = 0, task = 0, cost = Fin 10\<rparr>]
   \<and> mset [\<lparr>character = 0, task = 0, cost = Fin 10\<rparr>]
     \<subseteq># mset [\<lparr>character = 0, task = 0, cost = Fin 10\<rparr>, \<lparr>character = 1, task = 0, cost = Fin 15\<rparr>,
              \<lparr>character = 0, task = 1, cost = Fin 20\<rparr>]"
proof -
  let ?A = "[\<lparr>character = 0, task = 0, cost = Fin 10\<rparr>, \<lparr>character = 1, task = 0, cost = Fin 15\<rparr>,
             \<lparr>character = 0, task = 1, cost = Fin 20\<rparr>, \<lparr>character = 1, task = 1, cost = Fin 10\<rparr>]"
  let ?B = "[\<lparr>character = 0, task = 0, cost = Fin 10\<rparr>, \<lparr>character = 1, task = 0, cost = Fin 15\<rparr>,
             \<lparr>character = 0, task = 1, cost = Fin 20\<rparr>]"
  have 1: "Optimize ?A = Some (Inr [\<lparr>character = 0, task = 0, cost = Fin 10\<rparr>,
      \<lparr>character = 1, task = 1, cost = Fin 10\<rparr>])"
    by (simp add: eval_simps)
  have 2: "LimitAssignments ?B 1 1 = Inr [\<lparr>character = 0, task = 0, cost = Fin 10\<rparr>]"
    by (simp add: LimitAssignments_def sort_cost_def limit_loop.simps swap_pop_def)
  from outputs_from_input [of ?A _ 1 1] outputs_from_input [of ?B _ 1 1] 1 2
  show ?thesis by blast
qed

section \<open>Duplicate pairs\<close>

text \<open>
  Claim C8 says that of a pair that occurs several times in the input exactly one copy is
  retained when the matching selects the pair. The final loop of \<^verbatim>\<open>Optimize\<close> tests the
  character and the task of an element only, so it retains every copy: here both.
\<close>

theorem Optimize_keeps_duplicates:
  "Optimize [\<lparr>character = 0, task = 0, cost = Fin 1\<rparr>, \<lparr>character = 0, task = 0, cost = Fin 5\<rparr>]
     = Some (Inr [\<lparr>character = 0, task = 0, cost = Fin 1\<rparr>,
                  \<lparr>character = 0, task = 0, cost = Fin 5\<rparr>])"
  by (simp add: eval_simps)

text \<open>
  Claim C8 as amended. When \<^verbatim>\<open>Optimize\<close> returns, two elements of the input with the same
  character and the same task are retained together or removed together, and a retained
  element occurs in the output as often as in the input: of a selected pair every copy is
  retained.
\<close>

theorem Optimize_duplicates:
  assumes "Optimize assignments = Some (Inr out)"
    and "a \<in> set assignments" and "b \<in> set assignments"
    and "character a = character b" and "task a = task b"
  shows "(a \<in> set out \<longleftrightarrow> b \<in> set out)
     \<and> (a \<in> set out \<longrightarrow> count (mset out) a = count (mset assignments) a)"
proof -
  from Optimize_selects [OF assms(1)] obtain sel where
    sel: "mset out = filter_mset (\<lambda>a. sel (character a) (task a)) (mset assignments)" ..
  have "x \<in> set out \<longleftrightarrow> x \<in> set assignments \<and> sel (character x) (task x)" for x
    using sel by (metis (mono_tags, lifting) mem_Collect_eq set_mset_filter set_mset_mset)
  moreover have "count (mset out) x = (if sel (character x) (task x) then count (mset assignments) x else 0)" for x
    by (simp add: sel)
  ultimately show ?thesis using assms(2-5) by auto
qed

theorem Optimize_duplicates_witness:
  "Optimize [\<lparr>character = 0, task = 0, cost = Fin 1\<rparr>, \<lparr>character = 0, task = 0, cost = Fin 5\<rparr>]
     = Some (Inr [\<lparr>character = 0, task = 0, cost = Fin 1\<rparr>,
                  \<lparr>character = 0, task = 0, cost = Fin 5\<rparr>])
   \<and> ((\<lparr>character = 0, task = 0, cost = Fin 1\<rparr>
          \<in> set [\<lparr>character = 0, task = 0, cost = Fin 1\<rparr>,
                 \<lparr>character = 0, task = 0, cost = Fin 5\<rparr>])
      = (\<lparr>character = 0, task = 0, cost = Fin 5\<rparr>
          \<in> set [\<lparr>character = 0, task = 0, cost = Fin 1\<rparr>,
                 \<lparr>character = 0, task = 0, cost = Fin 5\<rparr>]))"
proof -
  let ?a = "\<lparr>character = 0, task = 0, cost = Fin 1\<rparr>"
  let ?b = "\<lparr>character = 0, task = 0, cost = Fin 5\<rparr>"
  have 1: "Optimize [?a, ?b] = Some (Inr [?a, ?b])"
    by (simp add: eval_simps)
  have 2: "?a \<in> set [?a, ?b]" "?b \<in> set [?a, ?b]" "character ?a = character ?b" "task ?a = task ?b"
    by simp_all
  from Optimize_duplicates [OF 1 2] have "(?a \<in> set [?a, ?b]) = (?b \<in> set [?a, ?b])"
    by (rule conjunct1)
  with 1 show ?thesis by (rule conjI)
qed

text \<open>
  Claim C7 says that no character and no task occurs in more than one retained pairing,
  duplicate pairs permitted. With the pair \<open>(0, 0)\<close> given twice, both copies are retained,
  and character 0 and task 0 occur twice each.
\<close>

theorem Optimize_duplicate_ids_twice:
  "Optimize [\<lparr>character = 0, task = 0, cost = Fin 2\<rparr>, \<lparr>character = 0, task = 0, cost = Fin 3\<rparr>]
     = Some (Inr [\<lparr>character = 0, task = 0, cost = Fin 2\<rparr>,
                  \<lparr>character = 0, task = 0, cost = Fin 3\<rparr>])
   \<and> count_character 0 [\<lparr>character = 0, task = 0, cost = Fin 2\<rparr>,
                          \<lparr>character = 0, task = 0, cost = Fin 3\<rparr>] = 2
   \<and> count_task 0 [\<lparr>character = 0, task = 0, cost = Fin 2\<rparr>,
                     \<lparr>character = 0, task = 0, cost = Fin 3\<rparr>] = 2"
  by (simp add: eval_simps count_character_def count_task_def)

text \<open>
  Claim C7 as amended. For an input in which no pair of a character and a task occurs twice,
  whenever \<^verbatim>\<open>Optimize\<close> returns, no character and no task occurs in more than one
  retained pairing. The proof rests on the invariant that \<^verbatim>\<open>xy\<close> and \<^verbatim>\<open>yx\<close> are
  inverse to each other, which every augmentation preserves.
\<close>

theorem Optimize_unique:
  assumes run: "Optimize assignments = Some (Inr out)"
    and dist: "distinct (map (\<lambda>a. (character a, task a)) assignments)"
  shows "distinct (map character out) \<and> distinct (map task out)"
proof -
  let ?pair = "\<lambda>a. (character a, task a)"
  from Optimize_selects [OF run] have sub: "mset out \<subseteq># mset assignments" by auto
  with dist have dp: "distinct (map ?pair out)" by (rule distinct_map_filter_sub)
  then have d: "distinct out" and inj: "inj_on ?pair (set out)"
    by (simp_all add: distinct_map)
  from sub have outin: "set out \<subseteq> set assignments"
    by (metis set_mset_mono set_mset_mset)
  from Optimize_result [OF run] have ids: "\<forall>a \<in> set assignments. 0 \<le> character a \<and> 0 \<le> task a"
    by simp
  have rng: "in_range (max_character assignments + 1) (character a)"
    "in_range (max_task assignments + 1) (task a)" if "a \<in> set out" for a
    using that outin ids max_character_ge [of a assignments] max_task_ge [of a assignments]
    by (auto simp: in_range_def)
  have same: "a = b" if "a \<in> set out" "b \<in> set out" "character a = character b" "task a = task b"
    for a b
    using inj that by (auto simp: inj_on_def)
  have "inj_on character (set out) \<and> inj_on task (set out)"
  proof (cases "max_character assignments < max_task assignments")
    case True
    with Optimize_result [OF run] obtain n st where
      h: "hungarian (max_character assignments + 1) (max_task assignments + 1)
            (value_by_character assignments) = Some (Inr (n, st))"
      and o: "mset out = filter_mset (\<lambda>a. task a = xy st (character a)) (mset assignments)"
      by blast
    have m: "match_inv (max_character assignments + 1) (max_task assignments + 1) st"
      using h max_task_nonneg [of assignments] by (intro hungarian_matching) simp_all
    have sel: "task a = xy st (character a)" if "a \<in> set out" for a
    proof -
      from that have "a \<in># mset out" by simp
      then show ?thesis unfolding o by simp
    qed
    have c: "character a = yx st (task a)" if "a \<in> set out" for a
    proof -
      from rng [OF that] sel [OF that] m
      show ?thesis by (auto simp: match_inv_def in_range_def)
    qed
    show ?thesis
    proof (intro conjI inj_onI)
      fix a b assume "a \<in> set out" "b \<in> set out" "character a = character b"
      then show "a = b" using sel [of a] sel [of b] by (intro same) simp_all
    next
      fix a b assume "a \<in> set out" "b \<in> set out" "task a = task b"
      then show "a = b" using c [of a] c [of b] by (intro same) simp_all
    qed
  next
    case False
    with Optimize_result [OF run] obtain n st where
      h: "hungarian (max_task assignments + 1) (max_character assignments + 1)
            (value_by_task assignments) = Some (Inr (n, st))"
      and o: "mset out = filter_mset (\<lambda>a. task a = yx st (character a)) (mset assignments)"
      by blast
    have m: "match_inv (max_task assignments + 1) (max_character assignments + 1) st"
      using h max_character_nonneg [of assignments] by (intro hungarian_matching) simp_all
    have sel: "task a = yx st (character a)" if "a \<in> set out" for a
    proof -
      from that have "a \<in># mset out" by simp
      then show ?thesis unfolding o by simp
    qed
    have c: "character a = xy st (task a)" if "a \<in> set out" for a
    proof -
      from rng [OF that] sel [OF that] m
      show ?thesis by (auto simp: match_inv_def in_range_def)
    qed
    show ?thesis
    proof (intro conjI inj_onI)
      fix a b assume "a \<in> set out" "b \<in> set out" "character a = character b"
      then show "a = b" using sel [of a] sel [of b] by (intro same) simp_all
    next
      fix a b assume "a \<in> set out" "b \<in> set out" "task a = task b"
      then show "a = b" using c [of a] c [of b] by (intro same) simp_all
    qed
  qed
  with d show ?thesis by (simp add: distinct_map)
qed

theorem Optimize_unique_witness:
  "distinct (map character [\<lparr>character = 0, task = 0, cost = Fin 10\<rparr>,
       \<lparr>character = 1, task = 1, cost = Fin 10\<rparr>])
   \<and> distinct (map task [\<lparr>character = 0, task = 0, cost = Fin 10\<rparr>,
       \<lparr>character = 1, task = 1, cost = Fin 10\<rparr>])"
proof -
  let ?A = "[\<lparr>character = 0, task = 0, cost = Fin 10\<rparr>, \<lparr>character = 1, task = 0, cost = Fin 15\<rparr>,
             \<lparr>character = 0, task = 1, cost = Fin 20\<rparr>, \<lparr>character = 1, task = 1, cost = Fin 10\<rparr>]"
  have 1: "Optimize ?A = Some (Inr [\<lparr>character = 0, task = 0, cost = Fin 10\<rparr>,
      \<lparr>character = 1, task = 1, cost = Fin 10\<rparr>])"
    by (simp add: eval_simps)
  have 2: "distinct (map (\<lambda>a. (character a, task a)) ?A)" by simp
  show ?thesis by (rule Optimize_unique [OF 1 2])
qed

section \<open>Running Optimize twice\<close>

text \<open>
  Claim C9 says that a second run of \<^verbatim>\<open>Optimize\<close> on the output of a first run changes
  nothing. The only pairing that the first run below retains has the largest cost of the
  second run's input, so its value \<open>max_cost - cost + 1.0\<close> is 1.0, the value of a pair
  that was not supplied; the second run matches character 0 with task 0, which was not
  supplied, and removes the pairing.
\<close>

theorem Optimize_twice:
  "Optimize [\<lparr>character = 0, task = 1, cost = Fin 5\<rparr>, \<lparr>character = 0, task = 0, cost = Fin 7\<rparr>]
     = Some (Inr [\<lparr>character = 0, task = 1, cost = Fin 5\<rparr>])
   \<and> Optimize [\<lparr>character = 0, task = 1, cost = Fin 5\<rparr>] = Some (Inr [])"
  by (simp add: eval_simps)

section \<open>Optimality\<close>







































section \<open>An infinite cost\<close>

text \<open>A state that one round of the main cycle maps to itself: the cycle never ends.\<close>

lemma main_cycle_stuck_aux:
  assumes "main_cycle NX NY val st = Some r"
  shows "\<forall>st1. bfs NX NY val st = Inr (None, st1) \<longrightarrow>
           slack_scan NX NY val 0 ((update_labels NX NY st1)\<lparr>wr := 0, rd := 0\<rparr>) \<noteq> Inr (None, st)"
  using assms
proof (induction rule: main_cycle.raw_induct [rotated, consumes 1, case_names step])
  case (step f NX NY val st r)
  show ?case
  proof (intro allI impI notI)
    fix st1
    assume a: "bfs NX NY val st = Inr (None, st1)"
      and b: "slack_scan NX NY val 0 ((update_labels NX NY st1)\<lparr>wr := 0, rd := 0\<rparr>) = Inr (None, st)"
    from step.hyps a b have "f NX NY val st = Some r" by simp
    from step.IH [OF this] a b show False by blast
  qed
qed

lemma main_cycle_stuck:
  assumes "bfs NX NY val st = Inr (None, st1)"
    and "slack_scan NX NY val 0 ((update_labels NX NY st1)\<lparr>wr := 0, rd := 0\<rparr>) = Inr (None, st)"
  shows "main_cycle NX NY val st = None"
  using main_cycle_stuck_aux [of NX NY val st] assms by (cases "main_cycle NX NY val st") auto


















text \<open>The input \<open>[(0, 0, \<infinity>), (0, 1, 5), (1, 0, 3)]\<close>: its matrix, and the state the main
  cycle reaches after one round and never leaves again.\<close>

definition scenario_C :: "Assignment list" where
  "scenario_C = [\<lparr>character = 0, task = 0, cost = PInf\<rparr>, \<lparr>character = 0, task = 1, cost = Fin 5\<rparr>,
     \<lparr>character = 1, task = 0, cost = Fin 3\<rparr>]"

definition value_C :: "int \<Rightarrow> int \<Rightarrow> double" where
  "value_C = (\<lambda>x y. Fin 1)(1 := (\<lambda>y. Fin 1)(0 := PInf), 0 := (\<lambda>y. Fin 1)(0 := NaN, 1 := PInf))"

definition state_C :: kstate where
  "state_C = \<lparr>lx = (\<lambda>_. Fin 0)(1 := PInf, 0 := PInf), ly = \<lambda>_. Fin 0,
       xy = \<lambda>_. - 1, yx = \<lambda>_. - 1, S = (\<lambda>_. False)(0 := True),
       T = \<lambda>_. False, slack = (\<lambda>_. Fin 0)(0 := NaN, 1 := NaN),
       slackx = (\<lambda>_. 0)(0 := 0, 1 := 0), prev = (\<lambda>_. - 1)(0 := - 2),
       q = (\<lambda>_. 0)(0 := 0), wr = 0, rd = 0\<rparr>"

lemma value_scenario_C: "value_by_task scenario_C = value_C"
  by (simp add: value_by_task_def scenario_C_def value_C_def max_cost_def std_max_def dsub_def)

lemma state_C_stuck: "main_cycle 2 2 value_C state_C = None"
proof (rule main_cycle_stuck)
  show "bfs 2 2 value_C state_C = Inr (None, state_C)"
    by (simp add: bfs.simps state_C_def)
  show "slack_scan 2 2 value_C 0 ((update_labels 2 2 state_C)\<lparr>wr := 0, rd := 0\<rparr>) = Inr (None, state_C)"
    by (simp add: state_C_def value_C_def update_labels_def for_loop.simps std_min_def dsub_def
        slack_scan.simps eq_def DBL_MAX_def Let_def)
qed


definition state_C0 :: kstate where
  "state_C0 = \<lparr>lx = (\<lambda>_. Fin 0)(0 := PInf, 1 := PInf), ly = \<lambda>_. Fin 0,
       xy = \<lambda>_. - 1, yx = \<lambda>_. - 1, S = (\<lambda>_. False)(0 := True),
       T = \<lambda>_. False, slack = (\<lambda>_. Fin 0)(0 := NaN, 1 := NaN),
       slackx = (\<lambda>_. 0)(0 := 0, 1 := 0), prev = (\<lambda>_. - 1)(0 := - 2),
       q = (\<lambda>_. 0)(0 := 0), wr = 1, rd = 0\<rparr>"

lemma scenario_C_bfs: "bfs 2 2 value_C state_C0 = Inr (None, state_C0\<lparr>rd := 1\<rparr>)"
  by (simp add: state_C0_def value_C_def bfs.simps bfs_scan.simps dsub_def eq_def)

lemma scenario_C_slack_scan: "slack_scan 2 2 value_C 0 ((update_labels 2 2 (state_C0\<lparr>rd := 1\<rparr>))\<lparr>wr := 0, rd := 0\<rparr>) = Inr (None, state_C)"
    by (simp add: state_C_def state_C0_def value_C_def update_labels_def for_loop.simps std_min_def dsub_def
        slack_scan.simps eq_def DBL_MAX_def Let_def)

lemma first_cycle_C: "main_cycle 2 2 value_C state_C0 = None"
  by (subst main_cycle.simps) (simp add: scenario_C_bfs scenario_C_slack_scan state_C_stuck)

lemma scenario_C_init_phase: "init_phase 2 2 value_C (init_state 2 2 value_C) = Inr state_C0"
  by (simp add: init_phase_def init_state_def find_root_def for_loop.simps std_max_def DBL_MIN_def
        dsub_def value_C_def state_C0_def)

lemma hungarian_scenario_C: "hungarian 2 2 value_C = None"
  unfolding hungarian_def
  by (subst outer_loop.simps) (simp add: scenario_C_init_phase first_cycle_C)

lemma Optimize_scenario_C: "Optimize scenario_C = None"
proof -
  have "max_task scenario_C = 1" "max_character scenario_C = 1"
    by (simp_all add: scenario_C_def max_task_def max_character_def)
  then show ?thesis
    by (simp add: Optimize_def value_scenario_C hungarian_scenario_C) (simp add: scenario_C_def)
qed

text \<open>
  Claim C3 says that \<^verbatim>\<open>Optimize\<close> terminates for costs that are finite or infinite. An
  infinite cost becomes \<^verbatim>\<open>max_cost\<close>, the values of the supplied pairs become \<open>\<infinity>\<close> or
  NaN, the label of the root is \<open>\<infinity>\<close>, no comparison with the tolerance succeeds any more
  and \<^verbatim>\<open>update_labels\<close> changes nothing: the main cycle of the first pass never ends.
\<close>

theorem Optimize_infinite_cost_diverges:
  "Optimize [\<lparr>character = 0, task = 0, cost = PInf\<rparr>, \<lparr>character = 0, task = 1, cost = Fin 5\<rparr>,
             \<lparr>character = 1, task = 0, cost = Fin 3\<rparr>] = None"
  using Optimize_scenario_C by (simp add: scenario_C_def)





section \<open>Termination\<close>

text \<open>
  Claim C3 as amended. For every input whose identifiers are non-negative and whose costs are
  finite and non-negative (at most \<^verbatim>\<open>DBL_MAX\<close>), \<^verbatim>\<open>Optimize\<close> returns, and the outer
  loop, which performs one augmentation in each pass and counts the passes in
  \<^verbatim>\<open>max_match\<close>, ends with \<^verbatim>\<open>max_match\<close> equal to
  \<open>min (max_character, max_task) + 1\<close>. With an infinite cost in the input
  \<^verbatim>\<open>Optimize\<close> need not return.
\<close>

theorem Optimize_terminates:
  assumes ids: "\<forall>a \<in> set assignments. 0 \<le> character a \<and> 0 \<le> task a"
    and costs: "\<forall>a \<in> set assignments. \<exists>c. cost a = Fin c \<and> 0 \<le> c \<and> c \<le> DBL_MAX"
  shows "(\<exists>out. Optimize assignments = Some (Inr out)) \<and>
     (\<exists>st. (if max_task assignments > max_character assignments
             then hungarian (max_character assignments + 1) (max_task assignments + 1)
                    (value_by_character assignments)
             else hungarian (max_task assignments + 1) (max_character assignments + 1)
                    (value_by_task assignments))
          = Some (Inr (min (max_character assignments) (max_task assignments) + 1, st)))"
proof -
  from max_cost_fin [OF costs] obtain M where
    M: "max_cost assignments = Fin M" "0 \<le> M" "M \<le> DBL_MAX" by blast
  from ids have ni: "\<not> (\<exists>a \<in> set assignments. character a < 0 \<or> task a < 0)" by auto
  show ?thesis
  proof (cases "max_task assignments > max_character assignments")
    case True
    have "\<exists>st. hungarian (max_character assignments + 1) (max_task assignments + 1)
        (value_by_character assignments) = Some (Inr (max_character assignments + 1, st))"
      using val_ok_by_character [OF costs M(1)] M(2,3)
    proof (rule hungarian_returns)
      show "0 \<le> max_character assignments + 1" using max_character_nonneg [of assignments] by simp
      show "max_character assignments + 1 \<le> max_task assignments + 1" using True by simp
    qed
    then obtain st where "hungarian (max_character assignments + 1) (max_task assignments + 1)
        (value_by_character assignments) = Some (Inr (max_character assignments + 1, st))" by blast
    moreover have "min (max_character assignments) (max_task assignments) = max_character assignments"
      using True by simp
    ultimately show ?thesis using True ni by (simp add: Optimize_def)
  next
    case False
    have "\<exists>st. hungarian (max_task assignments + 1) (max_character assignments + 1)
        (value_by_task assignments) = Some (Inr (max_task assignments + 1, st))"
      using val_ok_by_task [OF costs M(1)] M(2,3)
    proof (rule hungarian_returns)
      show "0 \<le> max_task assignments + 1" using max_task_nonneg [of assignments] by simp
      show "max_task assignments + 1 \<le> max_character assignments + 1" using False by simp
    qed
    then obtain st where "hungarian (max_task assignments + 1) (max_character assignments + 1)
        (value_by_task assignments) = Some (Inr (max_task assignments + 1, st))" by blast
    moreover have "min (max_character assignments) (max_task assignments) = max_task assignments"
      using False by simp
    ultimately show ?thesis using False ni by (simp add: Optimize_def)
  qed
qed

theorem Optimize_terminates_witness:
  "(\<exists>out. Optimize [\<lparr>character = 0, task = 0, cost = Fin 4\<rparr>,
                     \<lparr>character = 0, task = 1, cost = Fin 2\<rparr>,
                     \<lparr>character = 1, task = 0, cost = Fin 3\<rparr>] = Some (Inr out)) \<and>
   (\<exists>st. hungarian 2 2 (value_by_task [\<lparr>character = 0, task = 0, cost = Fin 4\<rparr>,
                     \<lparr>character = 0, task = 1, cost = Fin 2\<rparr>,
                     \<lparr>character = 1, task = 0, cost = Fin 3\<rparr>]) = Some (Inr (2, st)))"
  using Optimize_terminates [of "[\<lparr>character = 0, task = 0, cost = Fin 4\<rparr>,
                     \<lparr>character = 0, task = 1, cost = Fin 2\<rparr>,
                     \<lparr>character = 1, task = 0, cost = Fin 3\<rparr>]"]
  by (simp add: max_task_def max_character_def DBL_MAX_def)

end
